theory Spec2Isabelle
  imports Main "HOL-Library.Word"
begin

section \<open>The node structure\<close>

text \<open>
  \<^verbatim>\<open>struct node { T key; size_t height; node *left; node *right; node *parent; bool is_end; }\<close>

  The children are owned by their node, so \<open>left\<close> and \<open>right\<close> hold the subtrees
  themselves and \<open>Null\<close> is \<^verbatim>\<open>nullptr\<close>. The back reference \<open>parent\<close> owns
  nothing: it is stored as an address (\<open>None\<close> is \<^verbatim>\<open>nullptr\<close>), and every node
  records the address \<open>addr\<close> it was allocated at. The key type only needs
  \<^verbatim>\<open>operator<\<close>, a strict total order.

  The constructor \<^verbatim>\<open>node(node *par)\<close> of the sentinel leaves \<open>key\<close>
  default-initialised; the value it then holds is a parameter of \<open>Set_new\<close> below.
  Heights are \<^verbatim>\<open>size_t\<close> and the balance factor an \<^verbatim>\<open>int\<close>; they are modelled
  as \<open>nat\<close> and \<open>int\<close>. The source subtracts the heights in \<^verbatim>\<open>size_t\<close> and converts
  the difference to \<^verbatim>\<open>int\<close> (\<open>GetBalance_w\<close> below); for heights under \<open>2^31\<close> that is
  the difference of the heights as integers (lemma \<open>GetBalance_w_exact\<close>), and a
  balanced tree of such a height does not fit any address space. The member
  \<^verbatim>\<open>size_\<close> is a \<open>nat\<close> as well.
\<close>

datatype 'a node =
    Null
  | Node (addr: nat) (key: 'a) (height: nat) (left: "'a node") (right: "'a node")
         (parent: "nat option") (is_end: bool)

text \<open>Assignments to single fields of a node.\<close>

fun set_parent :: "nat option \<Rightarrow> 'a node \<Rightarrow> 'a node" where
  "set_parent q Null = Null"
| "set_parent q (Node a k h l r p e) = Node a k h l r q e"

fun set_left :: "'a node \<Rightarrow> 'a node \<Rightarrow> 'a node" where
  "set_left c Null = Null"
| "set_left c (Node a k h l r p e) = Node a k h c r p e"

fun set_right :: "'a node \<Rightarrow> 'a node \<Rightarrow> 'a node" where
  "set_right c Null = Null"
| "set_right c (Node a k h l r p e) = Node a k h l c p e"

fun ptr :: "'a node \<Rightarrow> nat option" where
  "ptr Null = None"
| "ptr (Node a k h l r p e) = Some a"

section \<open>Heights and rotations\<close>

fun GetHeight :: "'a node \<Rightarrow> nat" where
  "GetHeight Null = 0"
| "GetHeight (Node a k h l r p e) = h"

fun GetBalance :: "'a node \<Rightarrow> int" where
  "GetBalance Null = 0"
| "GetBalance (Node a k h l r p e) = int (GetHeight l) - int (GetHeight r)"

text \<open>The arithmetic of \<^verbatim>\<open>GetHeight(v->left) - GetHeight(v->right)\<close> on 64-bit
  \<^verbatim>\<open>size_t\<close>, truncated to a 32-bit \<^verbatim>\<open>int\<close>.\<close>

definition GetBalance_w :: "64 word \<Rightarrow> 64 word \<Rightarrow> int" where
  "GetBalance_w hl hr = sint (ucast (hl - hr) :: 32 word)"

fun FixHeight :: "'a node \<Rightarrow> 'a node" where
  "FixHeight Null = Null"
| "FixHeight (Node a k h l r p e) = Node a k (max (GetHeight l) (GetHeight r) + 1) l r p e"

text \<open>
  \<open>RightRotation v\<close> reads \<^verbatim>\<open>v->left\<close> without a test, and \<open>LeftRotation v\<close> reads
  \<^verbatim>\<open>v->right\<close>. \<open>FixBalance\<close> only calls them on a node whose balance is positive,
  respectively negative, and then that child is there (lemmas \<open>balance_pos_left\<close> and
  \<open>balance_neg_right\<close>). The second equation of each stands for the call that the
  source never makes.
\<close>

fun RightRotation :: "'a node \<Rightarrow> 'a node" where
  "RightRotation (Node av vk vh (Node aq qk qh ql qr qp qe) vr vp ve) =
     FixHeight (Node aq qk qh ql
       (FixHeight (Node av vk vh (set_parent (Some av) qr) vr (Some aq) ve)) vp qe)"
| "RightRotation v = v"

fun LeftRotation :: "'a node \<Rightarrow> 'a node" where
  "LeftRotation (Node av vk vh vl (Node aq qk qh ql qr qp qe) vp ve) =
     FixHeight (Node aq qk qh
       (FixHeight (Node av vk vh vl (set_parent (Some av) ql) (Some aq) ve)) qr vp qe)"
| "LeftRotation v = v"

definition FixBalance :: "'a node \<Rightarrow> 'a node" where
  "FixBalance v0 =
     (let v = FixHeight v0 in
      if v = Null then Null
      else if GetBalance v = - 2 then
        LeftRotation (if GetBalance (right v) > 0
                      then set_right (RightRotation (right v)) v else v)
      else if GetBalance v = 2 then
        RightRotation (if GetBalance (left v) < 0
                       then set_left (LeftRotation (left v)) v else v)
      else v)"

section \<open>Insertion and deletion\<close>

text \<open>
  \<open>Insert v k par n\<close>: \<open>n\<close> is the address that \<^verbatim>\<open>new node(k, par)\<close> returns.
\<close>

fun Insert :: "('a::linorder) node \<Rightarrow> 'a \<Rightarrow> nat option \<Rightarrow> nat \<Rightarrow> 'a node" where
  "Insert Null k par n = Node n k 1 Null Null par False"
| "Insert (Node a x h l r p e) k par n =
     (if e \<or> k < x
      then FixBalance (Node a x h (Insert l k (Some a) n) r p e)
      else FixBalance (Node a x h l (Insert r k (Some a) n) p e))"

text \<open>\<open>FindMin\<close>, \<open>FindEnd\<close> and \<open>EraseMin\<close> dereference their argument at once;
  they are never called on \<^verbatim>\<open>nullptr\<close>.\<close>

fun FindMin :: "'a node \<Rightarrow> 'a node" where
  "FindMin Null = Null"
| "FindMin (Node a k h l r p e) = (if l = Null then Node a k h l r p e else FindMin l)"

fun FindEnd :: "'a node \<Rightarrow> 'a node" where
  "FindEnd Null = Null"
| "FindEnd (Node a k h l r p e) = (if r = Null then Node a k h l r p e else FindEnd r)"

fun EraseMin :: "'a node \<Rightarrow> 'a node" where
  "EraseMin Null = Null"
| "EraseMin (Node a k h l r p e) =
     (if l = Null then set_parent p r
      else FixBalance (Node a k h (EraseMin l) r p e))"

fun Erase :: "('a::linorder) node \<Rightarrow> 'a \<Rightarrow> 'a node" where
  "Erase Null k = Null"
| "Erase (Node a x h l r p e) k =
     (if e \<or> k < x then FixBalance (Node a x h (Erase l k) r p e)
      else if x < k then FixBalance (Node a x h l (Erase r k) p e)
      else if r = Null then set_parent p l
      else (let minn = FindMin r;
                r' = EraseMin r
            in FixBalance (Node (addr minn) (key minn) (height minn)
                             (set_parent (Some (addr minn)) l)
                             (set_parent (Some (addr minn)) r') p (is_end minn))))"

section \<open>Lookup\<close>

text \<open>\<open>Find\<close> and \<open>LowerBound\<close> return a pointer into the tree: the address of a
  node, or \<open>None\<close> for \<^verbatim>\<open>nullptr\<close>.\<close>

fun Find :: "('a::linorder) node \<Rightarrow> 'a \<Rightarrow> nat option" where
  "Find Null k = None"
| "Find (Node a x h l r p e) k =
     (if e then (if l \<noteq> Null \<and> \<not> key l < k \<and> \<not> k < key l then ptr l else None)
      else if k < x then Find l k
      else if x < k then Find r k
      else Some a)"

fun LowerBound :: "('a::linorder) node \<Rightarrow> nat option \<Rightarrow> 'a \<Rightarrow> nat option" where
  "LowerBound Null par k = par"
| "LowerBound (Node a x h l r p e) par k =
     (if e then (if l \<noteq> Null \<and> \<not> key l < k then ptr l else Some a)
      else if k < x then LowerBound l (Some a) k
      else if x < k then LowerBound r (Some a) k
      else Some a)"

section \<open>Iterators\<close>

text \<open>
  An iterator holds \<^verbatim>\<open>const node *it_\<close>. \<open>node_at root a\<close> is the node of the
  tree under \<open>root\<close> stored at address \<open>a\<close>, and \<open>deref root it\<close> what \<^verbatim>\<open>it_->\<close>
  reads; \<open>Null\<close> means that the pointer is null or is not a node of this tree, and
  then the source has no defined behaviour. The iterator operations return \<open>None\<close>
  in that case, and also when a loop of the source does not terminate.
\<close>

fun node_at :: "'a node \<Rightarrow> nat \<Rightarrow> 'a node" where
  "node_at Null b = Null"
| "node_at (Node a k h l r p e) b =
     (if b = a then Node a k h l r p e
      else (case node_at l b of Null \<Rightarrow> node_at r b | v \<Rightarrow> v))"

fun deref :: "'a node \<Rightarrow> nat option \<Rightarrow> 'a node" where
  "deref root None = Null"
| "deref root (Some a) = node_at root a"

text \<open>\<^verbatim>\<open>while (v->left != nullptr) v = v->left;\<close> and its mirror image.\<close>

fun GetLeftmost :: "'a node \<Rightarrow> 'a node" where
  "GetLeftmost Null = Null"
| "GetLeftmost (Node a k h l r p e) = (if l \<noteq> Null then GetLeftmost l else Node a k h l r p e)"

fun GetRightmost :: "'a node \<Rightarrow> 'a node" where
  "GetRightmost Null = Null"
| "GetRightmost (Node a k h l r p e) = (if r \<noteq> Null then GetRightmost r else Node a k h l r p e)"

text \<open>\<^verbatim>\<open>while (!it_->is_end && !(t < it_->key) && it_->parent != nullptr) it_ = it_->parent;\<close>\<close>

partial_function (option) GetGreaterParent ::
  "('a::linorder) node \<Rightarrow> 'a \<Rightarrow> nat option \<Rightarrow> nat option option" where
  "GetGreaterParent root t it =
     (case deref root it of
        Null \<Rightarrow> None
      | Node a k h l r p e \<Rightarrow>
          if \<not> e \<and> \<not> t < k \<and> p \<noteq> None then GetGreaterParent root t p else Some it)"

declare GetGreaterParent.simps [code]

text \<open>\<^verbatim>\<open>while (!(t < it_->key) && it_->parent != nullptr) it_ = it_->parent;\<close>\<close>

partial_function (option) PostfixClimb ::
  "('a::linorder) node \<Rightarrow> 'a \<Rightarrow> nat option \<Rightarrow> nat option option" where
  "PostfixClimb root t it =
     (case deref root it of
        Null \<Rightarrow> None
      | Node a k h l r p e \<Rightarrow>
          if \<not> t < k \<and> p \<noteq> None then PostfixClimb root t p else Some it)"

declare PostfixClimb.simps [code]

text \<open>\<^verbatim>\<open>while (!(it_->key < t) && it_->parent != nullptr) it_ = it_->parent;\<close>\<close>

partial_function (option) LesserClimb ::
  "('a::linorder) node \<Rightarrow> 'a \<Rightarrow> nat option \<Rightarrow> nat option option" where
  "LesserClimb root t it =
     (case deref root it of
        Null \<Rightarrow> None
      | Node a k h l r p e \<Rightarrow>
          if \<not> k < t \<and> p \<noteq> None then LesserClimb root t p else Some it)"

declare LesserClimb.simps [code]

text \<open>\<^verbatim>\<open>iterator &operator++()\<close>\<close>

definition incr :: "('a::linorder) node \<Rightarrow> nat option \<Rightarrow> nat option option" where
  "incr root it =
     (case deref root it of
        Null \<Rightarrow> None
      | Node a k h l r p e \<Rightarrow>
          if e then Some it
          else if r \<noteq> Null then Some (ptr (GetLeftmost r))
          else GetGreaterParent root k it)"

text \<open>\<^verbatim>\<open>iterator &operator++(int)\<close> of \<^verbatim>\<open>SetTemplate.h\<close>\<close>

definition incr_post :: "('a::linorder) node \<Rightarrow> nat option \<Rightarrow> nat option option" where
  "incr_post root it =
     (case deref root it of
        Null \<Rightarrow> None
      | Node a k h l r p e \<Rightarrow>
          if e then Some it
          else if r \<noteq> Null then Some (ptr (GetLeftmost r))
          else PostfixClimb root k it)"

text \<open>\<^verbatim>\<open>iterator& operator++(int)\<close> of the second source file, which calls
  \<open>GetLeftmost\<close> and \<open>GetGreaterParent\<close>.\<close>

definition incr_post2 :: "('a::linorder) node \<Rightarrow> nat option \<Rightarrow> nat option option" where
  "incr_post2 root it =
     (case deref root it of
        Null \<Rightarrow> None
      | Node a k h l r p e \<Rightarrow>
          if e then Some it
          else if r \<noteq> Null then Some (ptr (GetLeftmost r))
          else GetGreaterParent root k it)"

text \<open>\<^verbatim>\<open>iterator &operator--()\<close>\<close>

definition decr :: "('a::linorder) node \<Rightarrow> nat option \<Rightarrow> nat option option" where
  "decr root it =
     (case deref root it of
        Null \<Rightarrow> None
      | Node a k h l r p e \<Rightarrow>
          if e then Some (if l \<noteq> Null then ptr l else p)
          else if l \<noteq> Null then Some (ptr (GetRightmost l))
          else if p = None then Some it
          else (case deref root p of
                  Null \<Rightarrow> None
                | Node pa pk ph pl pr pp pe \<Rightarrow>
                    if pe then (if pp = None then Some it else LesserClimb root k pp)
                    else LesserClimb root k it))"

section \<open>The set\<close>

text \<open>The members \<^verbatim>\<open>root_\<close>, \<^verbatim>\<open>size_\<close> and \<^verbatim>\<open>end_\<close> of the class.\<close>

record 'a Set_t =
  root_m :: "'a node"
  size_m :: nat
  end_m :: "nat option"

text \<open>\<^verbatim>\<open>Set()\<close>: \<open>n\<close> is the address of the new sentinel and \<open>d\<close> the value of a
  default-initialised \<^verbatim>\<open>T\<close>.\<close>

definition Set_new :: "'a \<Rightarrow> nat \<Rightarrow> 'a Set_t" where
  "Set_new d n = \<lparr>root_m = Node n d 1 Null Null None True, size_m = 0, end_m = Some n\<rparr>"

text \<open>\<^verbatim>\<open>void insert(const T &k)\<close>, with the address \<open>n\<close> of the node it may allocate.\<close>

definition Set_insert :: "('a::linorder) Set_t \<Rightarrow> 'a \<Rightarrow> nat \<Rightarrow> 'a Set_t" where
  "Set_insert s k n =
     (if Find (root_m s) k = None
      then s\<lparr>size_m := size_m s + 1, root_m := Insert (root_m s) k None n\<rparr>
      else s)"

text \<open>\<^verbatim>\<open>void erase(T k)\<close>. \<^verbatim>\<open>--size_\<close> only runs after \<open>Find\<close> has found the key, and
  then the size is not 0 in the states of \<open>reachable\<close>.\<close>

definition Set_erase :: "('a::linorder) Set_t \<Rightarrow> 'a \<Rightarrow> 'a Set_t" where
  "Set_erase s k =
     (if Find (root_m s) k \<noteq> None
      then s\<lparr>size_m := size_m s - 1, root_m := Erase (root_m s) k\<rparr>
      else s)"

definition Set_find :: "('a::linorder) Set_t \<Rightarrow> 'a \<Rightarrow> nat option" where
  "Set_find s k = (case Find (root_m s) k of None \<Rightarrow> end_m s | Some a \<Rightarrow> Some a)"

definition Set_begin :: "'a Set_t \<Rightarrow> nat option" where
  "Set_begin s = ptr (FindMin (root_m s))"

definition Set_end :: "'a Set_t \<Rightarrow> nat option" where
  "Set_end s = end_m s"

definition Set_size :: "'a Set_t \<Rightarrow> nat" where
  "Set_size s = size_m s"

text \<open>\<^verbatim>\<open>while (iter != e && *iter < k) ++iter;\<close>\<close>

partial_function (option) sweep ::
  "('a::linorder) node \<Rightarrow> nat option \<Rightarrow> 'a \<Rightarrow> nat option \<Rightarrow> nat option option" where
  "sweep root e k it =
     (if it \<noteq> e then
        (case deref root it of
           Null \<Rightarrow> None
         | Node a x h l r p en \<Rightarrow>
             if x < k then (case incr root it of None \<Rightarrow> None | Some it' \<Rightarrow> sweep root e k it')
             else Some it)
      else Some it)"

declare sweep.simps [code]

definition Set_lower_bound :: "('a::linorder) Set_t \<Rightarrow> 'a \<Rightarrow> nat option option" where
  "Set_lower_bound s k = sweep (root_m s) (end_m s) k (LowerBound (root_m s) None k)"

text \<open>
  \<^verbatim>\<open>node *CopyNode(node *v, node *par)\<close>. Every node of the copy comes from
  \<^verbatim>\<open>new node(v->key, par)\<close> or \<^verbatim>\<open>new node(par)\<close>, so its height is 1 and stays 1:
  \<open>CopyNode\<close> assigns \<^verbatim>\<open>left\<close> and \<^verbatim>\<open>right\<close> only. \<open>new a\<close> is the address allocated
  for the copy of the node at address \<open>a\<close>, and \<open>d\<close> the value of a default-initialised
  \<^verbatim>\<open>T\<close>, which the copy of the sentinel holds as its key.
\<close>

fun CopyNode :: "'a node \<Rightarrow> nat option \<Rightarrow> (nat \<Rightarrow> nat) \<Rightarrow> 'a \<Rightarrow> 'a node" where
  "CopyNode Null par new d = Null"
| "CopyNode (Node a k h l r p e) par new d =
     (if e then Node (new a) d 1 (CopyNode l (Some (new a)) new d) Null par True
      else Node (new a) k 1 (CopyNode l (Some (new a)) new d)
             (CopyNode r (Some (new a)) new d) par False)"

text \<open>\<^verbatim>\<open>Set(const Set &st)\<close>; \<^verbatim>\<open>operator=\<close> builds its result the same way.\<close>

definition Set_copy :: "'a Set_t \<Rightarrow> (nat \<Rightarrow> nat) \<Rightarrow> 'a \<Rightarrow> 'a Set_t" where
  "Set_copy st new d =
     \<lparr>root_m = CopyNode (root_m st) None new d, size_m = size_m st,
      end_m = ptr (FindEnd (CopyNode (root_m st) None new d))\<rparr>"

text \<open>
  The states that \<^verbatim>\<open>Set()\<close> followed by any sequence of \<^verbatim>\<open>insert\<close> and \<^verbatim>\<open>erase\<close>
  brings a set into, without copying. \<^verbatim>\<open>new\<close> returns an address that no live node
  has.
\<close>

fun addrs :: "'a node \<Rightarrow> nat set" where
  "addrs Null = {}"
| "addrs (Node a k h l r p e) = insert a (addrs l \<union> addrs r)"

inductive reachable :: "('a::linorder) Set_t \<Rightarrow> bool" where
  r_new: "reachable (Set_new d n)"
| r_insert: "reachable s \<Longrightarrow> n \<notin> addrs (root_m s) \<Longrightarrow> reachable (Set_insert s k n)"
| r_erase: "reachable s \<Longrightarrow> reachable (Set_erase s k)"

section \<open>Invariants\<close>

text \<open>The keys stored in the tree; the sentinel holds none.\<close>

fun keys :: "'a node \<Rightarrow> 'a set" where
  "keys Null = {}"
| "keys (Node a k h l r p e) = keys l \<union> (if e then {} else {k}) \<union> keys r"

text \<open>The cached height of every node is one more than the larger height of its
  children, and the heights of the children differ by at most one.\<close>

fun avl :: "'a node \<Rightarrow> bool" where
  "avl Null = True"
| "avl (Node a k h l r p e) =
     (h = max (GetHeight l) (GetHeight r) + 1 \<and>
      \<bar>int (GetHeight l) - int (GetHeight r)\<bar> \<le> 1 \<and> avl l \<and> avl r)"

text \<open>Search-tree order at every node that is not the sentinel.\<close>

fun bst :: "('a::linorder) node \<Rightarrow> bool" where
  "bst Null = True"
| "bst (Node a k h l r p e) =
     (bst l \<and> bst r \<and> (\<not> e \<longrightarrow> (\<forall>x\<in>keys l. x < k) \<and> (\<forall>x\<in>keys r. k < x)))"

text \<open>\<open>noend t\<close>: no node of \<open>t\<close> is the sentinel. \<open>endtree t\<close>: the sentinel is in
  \<open>t\<close>, at the end of the chain of right children, it has no right child, and no
  other node is a sentinel. In the in-order sequence the sentinel then comes after
  every key.\<close>

fun noend :: "'a node \<Rightarrow> bool" where
  "noend Null = True"
| "noend (Node a k h l r p e) = (\<not> e \<and> noend l \<and> noend r)"

fun endtree :: "'a node \<Rightarrow> bool" where
  "endtree Null = False"
| "endtree (Node a k h l r p e) = (noend l \<and> (if e then r = Null else endtree r))"

text \<open>The number of sentinel nodes, and whether following \<^verbatim>\<open>right\<close> from the
  root arrives at one.\<close>

fun count_end :: "'a node \<Rightarrow> nat" where
  "count_end Null = 0"
| "count_end (Node a k h l r p e) = count_end l + (if e then 1 else 0) + count_end r"

fun right_reaches_end :: "'a node \<Rightarrow> bool" where
  "right_reaches_end Null = False"
| "right_reaches_end (Node a k h l r p e) = (e \<or> right_reaches_end r)"

text \<open>No two nodes share an address, and every \<^verbatim>\<open>parent\<close> field holds the address of
  the node that owns the node (\<open>par\<close> for the root of the tree).\<close>

fun addrs_distinct :: "'a node \<Rightarrow> bool" where
  "addrs_distinct Null = True"
| "addrs_distinct (Node a k h l r p e) =
     (a \<notin> addrs l \<and> a \<notin> addrs r \<and> addrs l \<inter> addrs r = {} \<and> addrs_distinct l \<and> addrs_distinct r)"

fun parent_ok :: "nat option \<Rightarrow> 'a node \<Rightarrow> bool" where
  "parent_ok par Null = True"
| "parent_ok par (Node a k h l r p e) = (p = par \<and> parent_ok (Some a) l \<and> parent_ok (Some a) r)"

definition Set_inv :: "('a::linorder) Set_t \<Rightarrow> bool" where
  "Set_inv s =
     (avl (root_m s) \<and> bst (root_m s) \<and> endtree (root_m s) \<and> addrs_distinct (root_m s) \<and>
      parent_ok None (root_m s) \<and> size_m s = card (keys (root_m s)) \<and>
      end_m s = ptr (FindEnd (root_m s)))"

text \<open>
  A client loop over the iterator interface,
  \<^verbatim>\<open>for (i = 0; i < n; ++i) { ks.push_back(*it); ++it; }\<close>: the keys read and the
  iterator reached.
\<close>

fun walk :: "('a::linorder) node \<Rightarrow> nat \<Rightarrow> nat option \<Rightarrow> ('a list \<times> nat option) option" where
  "walk root 0 it = Some ([], it)"
| "walk root (Suc n) it =
     (if deref root it = Null then None
      else (case incr root it of
              None \<Rightarrow> None
            | Some it' \<Rightarrow>
                (case walk root n it' of
                   None \<Rightarrow> None
                 | Some (ks, e) \<Rightarrow> Some (key (deref root it) # ks, e))))"

text \<open>The nodes of a tree from left to right, the sentinel among them.\<close>

fun inorder :: "'a node \<Rightarrow> 'a node list" where
  "inorder Null = []"
| "inorder (Node a k h l r p e) = inorder l @ [Node a k h l r p e] @ inorder r"

text \<open>The nodes that hold a key, from left to right.\<close>

definition key_nodes :: "'a node \<Rightarrow> 'a node list" where
  "key_nodes t = filter (\<lambda>u. \<not> is_end u) (inorder t)"

text \<open>\<open>sub root t\<close>: looking up an address of \<open>t\<close> in the whole tree finds the node
  of \<open>t\<close>. \<open>chain root us\<close>: prefix increment leads from each node of the list to the
  next one.\<close>

definition sub :: "'a node \<Rightarrow> 'a node \<Rightarrow> bool" where
  "sub root t = (\<forall>b\<in>addrs t. node_at root b = node_at t b)"

fun chain :: "('a::linorder) node \<Rightarrow> 'a node list \<Rightarrow> bool" where
  "chain root [] = True"
| "chain root [u] = True"
| "chain root (u # v # vs) = (incr root (ptr u) = Some (ptr v) \<and> chain root (v # vs))"

text \<open>A node holding a key less than \<open>k\<close>.\<close>

definition below :: "('a::linorder) \<Rightarrow> 'a node \<Rightarrow> bool" where
  "below k u = (\<not> is_end u \<and> key u < k)"

text \<open>A run of the operations: \<^verbatim>\<open>Set<unsigned> s; s.insert(5); s.insert(3); s.insert(8);
  s.insert(1); s.insert(4);\<close> with the sentinel allocated at address 10 and the five
  nodes at 11 to 15.\<close>

definition w0 :: "nat Set_t" where "w0 = Set_new 0 10"
definition w1 :: "nat Set_t" where "w1 = Set_insert w0 5 11"
definition w2 :: "nat Set_t" where "w2 = Set_insert w1 3 12"
definition w3 :: "nat Set_t" where "w3 = Set_insert w2 8 13"
definition w4 :: "nat Set_t" where "w4 = Set_insert w3 1 14"
definition w5 :: "nat Set_t" where "w5 = Set_insert w4 4 15"

text \<open>A run with a copy: \<^verbatim>\<open>Set<unsigned> u; u.insert(5); u.insert(3); u.insert(1);
  u.insert(4); Set<unsigned> c(u); c.erase(5);\<close> with the nodes of \<open>u\<close> at addresses 10
  to 14 and their copies 20 higher. After \<^verbatim>\<open>c.erase(5)\<close> the sentinel of \<open>c\<close> is the
  root and its left child, the node of 3, has the two children 1 and 4. The further
  steps are \<^verbatim>\<open>c.insert(0)\<close>, and \<^verbatim>\<open>c.insert(1); c.erase(3); c.erase(1);\<close>, each new
  node at address 40.\<close>

definition u4 :: "nat Set_t" where
  "u4 = Set_insert (Set_insert (Set_insert (Set_insert (Set_new 0 10) 5 11) 3 12) 1 13) 4 14"
definition c0 :: "nat Set_t" where "c0 = Set_copy u4 (\<lambda>a. a + 20) 0"
definition c1 :: "nat Set_t" where "c1 = Set_erase c0 5"
definition c2 :: "nat Set_t" where "c2 = Set_insert c1 0 40"
definition d1 :: "nat Set_t" where "d1 = Set_insert c1 1 40"
definition d2 :: "nat Set_t" where "d2 = Set_erase d1 3"
definition d3 :: "nat Set_t" where "d3 = Set_erase d2 1"

section \<open>The balance factor in machine arithmetic\<close>

lemma sint_small:
  "- (2 ^ 31) \<le> (x::int) \<Longrightarrow> x < 2 ^ 31 \<Longrightarrow> sint (word_of_int x :: 32 word) = x"
  by (simp add: sint_sbintrunc' signed_take_bit_int_eq_self)

lemma narrow_take_bit: "(word_of_int (take_bit 64 x) :: 32 word) = word_of_int x"
  by (simp add: word_of_int_eq_iff take_bit_take_bit)

lemma uint_diff_64: "uint (a - b :: 64 word) = take_bit 64 (uint a - uint b)"
  by (simp add: uint_word_ariths take_bit_eq_mod)

lemma narrow_of_nat: "(word_of_int (uint (of_nat n :: 64 word)) :: 32 word) = of_nat n"
  by (rule bit_word_eqI) (simp add: bit_simps)

lemma narrow_uint: "(ucast (w :: 64 word) :: 32 word) = word_of_int (uint w)"
  by simp

lemma narrow_diff:
  "(ucast ((of_nat hl :: 64 word) - of_nat hr) :: 32 word) = word_of_int (int hl - int hr)"
proof -
  have "(ucast ((of_nat hl :: 64 word) - of_nat hr) :: 32 word) =
        word_of_int (uint (of_nat hl :: 64 word) - uint (of_nat hr :: 64 word))"
    by (simp only: narrow_uint uint_diff_64 narrow_take_bit)
  also have "\<dots> = word_of_int (uint (of_nat hl :: 64 word)) -
                   word_of_int (uint (of_nat hr :: 64 word))"
    by (simp only: of_int_diff)
  also have "\<dots> = of_nat hl - of_nat hr"
    by (simp only: narrow_of_nat)
  also have "\<dots> = word_of_int (int hl - int hr)"
    by simp
  finally show ?thesis .
qed

lemma GetBalance_w_exact:
  assumes "hl < 2 ^ 31" "hr < 2 ^ 31"
  shows "GetBalance_w (of_nat hl) (of_nat hr) = int hl - int hr"
proof -
  have "- (2 ^ 31) \<le> int hl - int hr" "int hl - int hr < 2 ^ 31"
    using assms by auto
  then show ?thesis
    unfolding GetBalance_w_def narrow_diff by (rule sint_small)
qed

lemma GetBalance_machine:
  "GetHeight l < 2 ^ 31 \<Longrightarrow> GetHeight r < 2 ^ 31 \<Longrightarrow>
   GetBalance (Node a k h l r p e) = GetBalance_w (of_nat (GetHeight l)) (of_nat (GetHeight r))"
  by (simp add: GetBalance_w_exact)

text \<open>The rotations are only called on nodes that have the child they read.\<close>

lemma balance_pos_left: "0 < GetBalance v \<Longrightarrow> v \<noteq> Null \<and> left v \<noteq> Null"
  by (cases v; cases "left v") auto

lemma balance_neg_right: "GetBalance v < 0 \<Longrightarrow> v \<noteq> Null \<and> right v \<noteq> Null"
  by (cases v; cases "right v") auto

section \<open>Balance and cached heights\<close>

lemma GetHeight_0 [simp]: "avl t \<Longrightarrow> (GetHeight t = 0) = (t = Null)"
  by (cases t) auto

lemma avl_set_parent [simp]: "avl (set_parent q t) = avl t"
  by (cases t) auto

lemma GetHeight_set_parent [simp]: "GetHeight (set_parent q t) = GetHeight t"
  by (cases t) auto

lemma avl_FixBalance_bal:
  "avl l \<Longrightarrow> avl r \<Longrightarrow> \<bar>int (GetHeight l) - int (GetHeight r)\<bar> \<le> 1 \<Longrightarrow>
   FixBalance (Node a x h l r p e) = Node a x (max (GetHeight l) (GetHeight r) + 1) l r p e"
  by (auto simp: FixBalance_def Let_def)

lemma avl_FixBalance_left:
  assumes "avl l" "avl r" "int (GetHeight l) = int (GetHeight r) + 2"
  shows "avl (FixBalance (Node a x h l r p e)) \<and>
         (GetHeight (FixBalance (Node a x h l r p e)) = GetHeight l \<or>
          GetHeight (FixBalance (Node a x h l r p e)) = GetHeight l + 1)"
proof (cases l)
  case Null
  with assms show ?thesis by simp
next
  case (Node aq qk qh ql qr qp qe)
  show ?thesis
  proof (cases "GetBalance l < 0")
    case False
    with assms Node show ?thesis
      by (auto simp: FixBalance_def Let_def max_def split: if_splits)
  next
    case True
    with assms Node obtain b bk bh bl br bp be where qr: "qr = Node b bk bh bl br bp be"
      by (cases qr) auto
    with True assms Node show ?thesis
      by (auto simp: FixBalance_def Let_def max_def split: if_splits)
  qed
qed

lemma avl_FixBalance_right:
  assumes "avl l" "avl r" "int (GetHeight r) = int (GetHeight l) + 2"
  shows "avl (FixBalance (Node a x h l r p e)) \<and>
         (GetHeight (FixBalance (Node a x h l r p e)) = GetHeight r \<or>
          GetHeight (FixBalance (Node a x h l r p e)) = GetHeight r + 1)"
proof (cases r)
  case Null
  with assms show ?thesis by simp
next
  case (Node aq qk qh ql qr qp qe)
  show ?thesis
  proof (cases "GetBalance r > 0")
    case False
    with assms Node show ?thesis
      by (auto simp: FixBalance_def Let_def max_def split: if_splits)
  next
    case True
    with assms Node obtain b bk bh bl br bp be where ql: "ql = Node b bk bh bl br bp be"
      by (cases ql) auto
    with True assms Node show ?thesis
      by (auto simp: FixBalance_def Let_def max_def split: if_splits)
  qed
qed

lemma avl_FixBalance:
  assumes "avl l" "avl r" "\<bar>int (GetHeight l) - int (GetHeight r)\<bar> \<le> 2"
  shows "avl (FixBalance (Node a x h l r p e)) \<and>
         (GetHeight (FixBalance (Node a x h l r p e)) = max (GetHeight l) (GetHeight r) + 1 \<or>
          (\<bar>int (GetHeight l) - int (GetHeight r)\<bar> = 2 \<and>
           GetHeight (FixBalance (Node a x h l r p e)) = max (GetHeight l) (GetHeight r)))"
proof -
  consider "\<bar>int (GetHeight l) - int (GetHeight r)\<bar> \<le> 1"
    | "int (GetHeight l) = int (GetHeight r) + 2"
    | "int (GetHeight r) = int (GetHeight l) + 2"
    using assms(3) by linarith
  then show ?thesis
  proof cases
    case 1
    with assms show ?thesis by (simp add: avl_FixBalance_bal)
  next
    case 2
    with avl_FixBalance_left [OF assms(1,2) 2, of a x h p e] show ?thesis
      by (auto simp: max_def)
  next
    case 3
    with avl_FixBalance_right [OF assms(1,2) 3, of a x h p e] show ?thesis
      by (auto simp: max_def)
  qed
qed

lemma avl_Insert:
  "avl t \<Longrightarrow> avl (Insert t k par n) \<and>
     (GetHeight (Insert t k par n) = GetHeight t \<or>
      GetHeight (Insert t k par n) = GetHeight t + 1)"
proof (induction t arbitrary: par)
  case Null
  show ?case by simp
next
  case (Node a x h l r p e)
  show ?case
  proof (cases "e \<or> k < x")
    case True
    let ?l = "Insert l k (Some a) n"
    from Node.prems Node.IH(1) [of "Some a"]
    have l: "avl ?l" "GetHeight ?l = GetHeight l \<or> GetHeight ?l = GetHeight l + 1"
      by auto
    with Node.prems have d: "\<bar>int (GetHeight ?l) - int (GetHeight r)\<bar> \<le> 2" by auto
    from Node.prems have r: "avl r" by simp
    from avl_FixBalance [OF l(1) r d, of a x h p e] l(2) Node.prems True
    show ?thesis by (auto simp: max_def split: if_splits)
  next
    case False
    let ?r = "Insert r k (Some a) n"
    from Node.prems Node.IH(2) [of "Some a"]
    have r: "avl ?r" "GetHeight ?r = GetHeight r \<or> GetHeight ?r = GetHeight r + 1"
      by auto
    with Node.prems have d: "\<bar>int (GetHeight l) - int (GetHeight ?r)\<bar> \<le> 2" by auto
    from Node.prems have l: "avl l" by simp
    from avl_FixBalance [OF l r(1) d, of a x h p e] r(2) Node.prems False
    show ?thesis by (auto simp: max_def split: if_splits)
  qed
qed

lemma avl_EraseMin:
  "avl t \<Longrightarrow> t \<noteq> Null \<Longrightarrow> avl (EraseMin t) \<and>
     (GetHeight (EraseMin t) = GetHeight t \<or> GetHeight (EraseMin t) + 1 = GetHeight t)"
proof (induction t)
  case Null
  then show ?case by simp
next
  case (Node a x h l r p e)
  show ?case
  proof (cases "l = Null")
    case True
    with Node.prems show ?thesis by (auto simp: max_def)
  next
    case False
    let ?l = "EraseMin l"
    from Node.prems Node.IH(1) False
    have l: "avl ?l" "GetHeight ?l = GetHeight l \<or> GetHeight ?l + 1 = GetHeight l"
      by auto
    with Node.prems have d: "\<bar>int (GetHeight ?l) - int (GetHeight r)\<bar> \<le> 2" by auto
    from Node.prems have r: "avl r" by simp
    from avl_FixBalance [OF l(1) r d, of a x h p e] l(2) Node.prems False
    show ?thesis by (auto simp: max_def split: if_splits)
  qed
qed

lemma avl_Erase:
  "avl t \<Longrightarrow> avl (Erase t k) \<and>
     (GetHeight (Erase t k) = GetHeight t \<or> GetHeight (Erase t k) + 1 = GetHeight t)"
proof (induction t)
  case Null
  then show ?case by simp
next
  case (Node a x h l r p e)
  from Node.prems have al: "avl l" and ar: "avl r" by simp_all
  consider (L) "e \<or> k < x" | (R) "\<not> (e \<or> k < x)" "x < k"
    | (E0) "\<not> (e \<or> k < x)" "\<not> x < k" "r = Null"
    | (E1) "\<not> (e \<or> k < x)" "\<not> x < k" "r \<noteq> Null"
    by blast
  then show ?case
  proof cases
    case L
    let ?l = "Erase l k"
    from al Node.IH(1)
    have l: "avl ?l" "GetHeight ?l = GetHeight l \<or> GetHeight ?l + 1 = GetHeight l"
      by auto
    with Node.prems have d: "\<bar>int (GetHeight ?l) - int (GetHeight r)\<bar> \<le> 2" by auto
    from avl_FixBalance [OF l(1) ar d, of a x h p e] l(2) Node.prems L
    show ?thesis by (auto simp: max_def split: if_splits)
  next
    case R
    let ?r = "Erase r k"
    from ar Node.IH(2)
    have r: "avl ?r" "GetHeight ?r = GetHeight r \<or> GetHeight ?r + 1 = GetHeight r"
      by auto
    with Node.prems have d: "\<bar>int (GetHeight l) - int (GetHeight ?r)\<bar> \<le> 2" by auto
    from avl_FixBalance [OF al r(1) d, of a x h p e] r(2) Node.prems R
    show ?thesis by (auto simp: max_def split: if_splits)
  next
    case E0
    with Node.prems show ?thesis by (auto simp: max_def)
  next
    case E1
    let ?m = "FindMin r"
    let ?l = "set_parent (Some (addr ?m)) l"
    let ?r = "set_parent (Some (addr ?m)) (EraseMin r)"
    from avl_EraseMin [OF ar E1(3)]
    have r: "avl ?r" "GetHeight ?r = GetHeight r \<or> GetHeight ?r + 1 = GetHeight r"
      by auto
    have l: "avl ?l" "GetHeight ?l = GetHeight l" using al by auto
    from r l Node.prems have d: "\<bar>int (GetHeight ?l) - int (GetHeight ?r)\<bar> \<le> 2" by auto
    from avl_FixBalance [OF l(1) r(1) d, of "addr ?m" "key ?m" "height ?m" p "is_end ?m"]
         r(2) l(2) Node.prems E1
    show ?thesis by (auto simp: max_def Let_def split: if_splits)
  qed
qed

section \<open>Keys, order and the sentinel under rotation, insertion and deletion\<close>

lemma finite_keys [simp]: "finite (keys t)"
  by (induction t) auto

lemma set_parent_simps [simp]:
  "keys (set_parent q t) = keys t"
  "noend (set_parent q t) = noend t"
  "endtree (set_parent q t) = endtree t"
  "(set_parent q t = Null) = (t = Null)"
  by (cases t; simp)+

lemma bst_set_parent [simp]: "bst (set_parent q t) = bst t"
  by (cases t) simp_all

lemma FixHeight_simps [simp]:
  "keys (FixHeight t) = keys t"
  "noend (FixHeight t) = noend t"
  "endtree (FixHeight t) = endtree t"
  "(FixHeight t = Null) = (t = Null)"
  by (cases t; simp)+

lemma bst_FixHeight [simp]: "bst (FixHeight t) = bst t"
  by (cases t) simp_all

lemma noend_not_endtree: "noend t \<Longrightarrow> \<not> endtree t"
  by (induction t) auto

lemma keys_RightRotation [simp]: "keys (RightRotation t) = keys t"
  by (induction t rule: RightRotation.induct) auto

lemma keys_LeftRotation [simp]: "keys (LeftRotation t) = keys t"
  by (induction t rule: LeftRotation.induct) auto

lemma noend_RightRotation [simp]: "noend (RightRotation t) = noend t"
  by (induction t rule: RightRotation.induct) auto

lemma noend_LeftRotation [simp]: "noend (LeftRotation t) = noend t"
  by (induction t rule: LeftRotation.induct) auto

lemma endtree_RightRotation [simp]: "endtree t \<Longrightarrow> endtree (RightRotation t)"
  by (induction t rule: RightRotation.induct) (auto dest: noend_not_endtree)

lemma endtree_LeftRotation [simp]: "endtree t \<Longrightarrow> endtree (LeftRotation t)"
  by (induction t rule: LeftRotation.induct) (auto dest: noend_not_endtree split: if_splits)

lemma bst_RightRotation: "bst t \<Longrightarrow> noend t \<or> endtree t \<Longrightarrow> bst (RightRotation t)"
  by (induction t rule: RightRotation.induct) (auto dest: noend_not_endtree split: if_splits)

lemma bst_LeftRotation: "bst t \<Longrightarrow> noend t \<or> endtree t \<Longrightarrow> bst (LeftRotation t)"
  by (induction t rule: LeftRotation.induct) (auto dest: noend_not_endtree split: if_splits)

lemma set_child_simps [simp]:
  "keys (set_right c (Node a k h l r p e)) = keys (Node a k h l c p e)"
  "keys (set_left c (Node a k h l r p e)) = keys (Node a k h c r p e)"
  by simp_all

lemma keys_FixBalance [simp]: "keys (FixBalance t) = keys t"
  by (cases t) (auto simp: FixBalance_def Let_def)

lemma noend_FixBalance [simp]: "noend (FixBalance t) = noend t"
  by (cases t) (auto simp: FixBalance_def Let_def)

lemma endtree_FixBalance [simp]: "endtree t \<Longrightarrow> endtree (FixBalance t)"
  by (cases t) (auto simp: FixBalance_def Let_def dest: noend_not_endtree split: if_splits)

lemma bst_FixBalance: "bst t \<Longrightarrow> noend t \<or> endtree t \<Longrightarrow> bst (FixBalance t)"
  by (cases t) (auto simp: FixBalance_def Let_def bst_RightRotation bst_LeftRotation
      dest: noend_not_endtree split: if_splits)

lemma keys_Insert [simp]: "keys (Insert t k par n) = insert k (keys t)"
  by (induction t arbitrary: par) auto

lemma noend_Insert [simp]: "noend t \<Longrightarrow> noend (Insert t k par n)"
  by (induction t arbitrary: par) auto

lemma endtree_Insert [simp]: "endtree t \<Longrightarrow> endtree (Insert t k par n)"
  by (induction t arbitrary: par) (auto split: if_splits)

lemma bst_Insert:
  "bst t \<Longrightarrow> noend t \<or> endtree t \<Longrightarrow> k \<notin> keys t \<Longrightarrow> bst (Insert t k par n)"
proof (induction t arbitrary: par)
  case Null
  show ?case by simp
next
  case (Node a x h l r p e)
  show ?case
  proof (cases "e \<or> k < x")
    case True
    have "bst (Node a x h (Insert l k (Some a) n) r p e)"
      using Node.prems Node.IH(1) [of "Some a"] True
      by (auto dest: noend_not_endtree split: if_splits)
    moreover have "noend (Node a x h (Insert l k (Some a) n) r p e) \<or>
                   endtree (Node a x h (Insert l k (Some a) n) r p e)"
      using Node.prems(2) by (auto split: if_splits)
    ultimately show ?thesis using True by (simp add: bst_FixBalance)
  next
    case False
    have "bst (Node a x h l (Insert r k (Some a) n) p e)"
      using Node.prems Node.IH(2) [of "Some a"] False
      by (auto dest: noend_not_endtree split: if_splits)
    moreover have "noend (Node a x h l (Insert r k (Some a) n) p e) \<or>
                   endtree (Node a x h l (Insert r k (Some a) n) p e)"
      using Node.prems(2) False by (auto split: if_splits)
    ultimately show ?thesis using False by (simp add: bst_FixBalance)
  qed
qed

lemma FindMin_Null [simp]: "(FindMin t = Null) = (t = Null)"
  by (induction t) auto

lemma FindMin_left [simp]: "t \<noteq> Null \<Longrightarrow> left (FindMin t) = Null"
  by (induction t) auto

lemma FindMin_noend: "noend t \<Longrightarrow> t \<noteq> Null \<Longrightarrow> \<not> is_end (FindMin t)"
  by (induction t) auto

lemma FindMin_end: "endtree t \<Longrightarrow> is_end (FindMin t) \<Longrightarrow> is_end t \<and> left t = Null"
  by (cases t) (auto dest: FindMin_noend split: if_splits)

lemma FindMin_key:
  "bst t \<Longrightarrow> t \<noteq> Null \<Longrightarrow> \<not> is_end (FindMin t) \<Longrightarrow> noend t \<or> endtree t \<Longrightarrow>
   key (FindMin t) \<in> keys t \<and> (\<forall>x\<in>keys t. key (FindMin t) \<le> x)"
proof (induction t)
  case Null
  then show ?case by simp
next
  case (Node a x h l r p e)
  show ?case
  proof (cases "l = Null")
    case True
    with Node.prems show ?thesis by (auto simp: less_imp_le)
  next
    case False
    with Node.prems Node.IH(1) have
      "key (FindMin l) \<in> keys l \<and> (\<forall>x\<in>keys l. key (FindMin l) \<le> x)"
      by (auto split: if_splits)
    moreover have "e \<Longrightarrow> r = Null" using Node.prems by (auto dest: noend_not_endtree)
    ultimately show ?thesis using False Node.prems(1)
      by (cases e) (fastforce)+
  qed
qed

lemma keys_EraseMin:
  "t \<noteq> Null \<Longrightarrow> bst t \<Longrightarrow> noend t \<or> endtree t \<Longrightarrow> \<not> is_end (FindMin t) \<Longrightarrow>
   keys (EraseMin t) = keys t - {key (FindMin t)}"
proof (induction t)
  case Null
  then show ?case by simp
next
  case (Node a x h l r p e)
  show ?case
  proof (cases "l = Null")
    case True
    with Node.prems show ?thesis by auto
  next
    case False
    from Node.prems False have nl: "noend l" by (auto split: if_splits)
    with Node.prems False Node.IH(1)
    have IH: "keys (EraseMin l) = keys l - {key (FindMin l)}" by auto
    from Node.prems False nl FindMin_key [of l] have
      m: "key (FindMin l) \<in> keys l" by auto
    have "e \<Longrightarrow> r = Null" using Node.prems by (auto dest: noend_not_endtree)
    with IH m False Node.prems(2) show ?thesis by (cases e) (auto, force)
  qed
qed

lemma noend_EraseMin [simp]: "noend t \<Longrightarrow> noend (EraseMin t)"
  by (induction t) auto

lemma endtree_EraseMin:
  "endtree t \<Longrightarrow> \<not> is_end (FindMin t) \<Longrightarrow> endtree (EraseMin t)"
  by (induction t) (auto split: if_splits)

lemma EraseMin_end:
  "endtree t \<Longrightarrow> is_end (FindMin t) \<Longrightarrow> EraseMin t = Null \<and> keys t = {}"
  using FindMin_end [of t] by (cases t) (auto split: if_splits)

lemma bst_EraseMin:
  "bst t \<Longrightarrow> noend t \<or> endtree t \<Longrightarrow> \<not> is_end (FindMin t) \<Longrightarrow> bst (EraseMin t)"
proof (induction t)
  case Null
  then show ?case by simp
next
  case (Node a x h l r p e)
  show ?case
  proof (cases "l = Null")
    case True
    with Node.prems show ?thesis by auto
  next
    case False
    from Node.prems False have nl: "noend l" by (auto split: if_splits)
    with Node.prems False Node.IH(1) have b: "bst (EraseMin l)" by auto
    from Node.prems False nl keys_EraseMin [of l]
    have k: "keys (EraseMin l) = keys l - {key (FindMin l)}" by auto
    have "bst (Node a x h (EraseMin l) r p e)" using b k Node.prems(1) by auto
    moreover have "noend (Node a x h (EraseMin l) r p e) \<or>
                   endtree (Node a x h (EraseMin l) r p e)"
      using Node.prems(2) nl by (auto split: if_splits)
    ultimately show ?thesis using False by (simp add: bst_FixBalance)
  qed
qed

lemma noend_Erase [simp]: "noend t \<Longrightarrow> noend (Erase t k)"
  by (induction t) (auto simp: Let_def FindMin_noend)

lemma endtree_Erase [simp]: "endtree t \<Longrightarrow> endtree (Erase t k)"
proof (induction t)
  case Null
  then show ?case by simp
next
  case (Node a x h l r p e)
  show ?case
  proof (cases "is_end (FindMin r)")
    case True
    with Node show ?thesis
      by (auto simp: Let_def EraseMin_end split: if_splits)
  next
    case False
    with Node show ?thesis
      by (auto simp: Let_def endtree_EraseMin split: if_splits)
  qed
qed

lemma keys_Erase:
  "bst t \<Longrightarrow> noend t \<or> endtree t \<Longrightarrow> keys (Erase t k) = keys t - {k}"
proof (induction t)
  case Null
  then show ?case by simp
next
  case (Node a x h l r p e)
  from Node.prems have nl: "noend l" and bl: "bst l" and br: "bst r"
    by (auto split: if_splits)
  from Node.prems have er: "e \<Longrightarrow> r = Null" by (auto dest: noend_not_endtree)
  from Node.prems have nr: "\<not> e \<Longrightarrow> noend r \<or> endtree r" by auto
  have IHl: "keys (Erase l k) = keys l - {k}" using Node.IH(1) bl nl by simp
  consider (L) "e \<or> k < x" | (R) "\<not> e" "x < k"
    | (E0) "\<not> e" "k = x" "r = Null"
    | (E1) "\<not> e" "k = x" "r \<noteq> Null" "is_end (FindMin r)"
    | (E2) "\<not> e" "k = x" "r \<noteq> Null" "\<not> is_end (FindMin r)"
    by (cases "k < x"; cases "x < k"; auto)
  then show ?case
  proof cases
    case L
    with IHl er Node.prems(1) show ?thesis by (cases e) auto
  next
    case R
    with Node.IH(2) br nr have "keys (Erase r k) = keys r - {k}" by simp
    with R Node.prems(1) show ?thesis by auto
  next
    case E0
    with Node.prems(1) show ?thesis by auto
  next
    case E1
    with nr FindMin_noend [of r] have "endtree r" by auto
    from EraseMin_end [OF this E1(4)] E1 Node.prems(1) show ?thesis
      by (auto simp: Let_def)
  next
    case E2
    from keys_EraseMin [OF E2(3) br nr E2(4)] E2(1)
    have k: "keys (EraseMin r) = keys r - {key (FindMin r)}" by simp
    from FindMin_key [OF br E2(3,4) nr] E2(1)
    have m: "key (FindMin r) \<in> keys r" by simp
    from E2 k m Node.prems(1) show ?thesis
      by (auto simp: Let_def)
  qed
qed

lemma bst_Erase:
  "bst t \<Longrightarrow> noend t \<or> endtree t \<Longrightarrow> bst (Erase t k)"
proof (induction t)
  case Null
  then show ?case by simp
next
  case (Node a x h l r p e)
  from Node.prems have nl: "noend l" and bl: "bst l" and br: "bst r"
    by (auto split: if_splits)
  from Node.prems have er: "e \<Longrightarrow> r = Null" by (auto dest: noend_not_endtree)
  from Node.prems have nr: "\<not> e \<Longrightarrow> noend r \<or> endtree r" by auto
  consider (L) "e \<or> k < x" | (R) "\<not> e" "x < k"
    | (E0) "\<not> e" "k = x" "r = Null"
    | (E1) "\<not> e" "k = x" "r \<noteq> Null" "is_end (FindMin r)"
    | (E2) "\<not> e" "k = x" "r \<noteq> Null" "\<not> is_end (FindMin r)"
    by (cases "k < x"; cases "x < k"; auto)
  then show ?case
  proof cases
    case L
    have "bst (Node a x h (Erase l k) r p e)"
      using Node.IH(1) bl nl br Node.prems(1) by (auto simp: keys_Erase)
    moreover have "noend (Node a x h (Erase l k) r p e) \<or>
                   endtree (Node a x h (Erase l k) r p e)"
      using Node.prems(2) nl by (auto split: if_splits)
    ultimately show ?thesis using L by (simp add: bst_FixBalance)
  next
    case R
    have "bst (Node a x h l (Erase r k) p e)"
      using Node.IH(2) bl nr br R Node.prems(1) by (auto simp: keys_Erase)
    moreover have "noend (Node a x h l (Erase r k) p e) \<or>
                   endtree (Node a x h l (Erase r k) p e)"
      using Node.prems(2) R by (auto split: if_splits)
    ultimately show ?thesis using R by (simp add: bst_FixBalance)
  next
    case E0
    with bl show ?thesis by auto
  next
    case E1
    with nr FindMin_noend [of r] have "endtree r" by auto
    from EraseMin_end [OF this E1(4)] have z: "EraseMin r = Null" by simp
    let ?m = "FindMin r"
    have "bst (Node (addr ?m) (key ?m) (height ?m) (set_parent (Some (addr ?m)) l)
                 (set_parent (Some (addr ?m)) (EraseMin r)) p (is_end ?m))"
      using z bl E1 by simp
    moreover have "endtree (Node (addr ?m) (key ?m) (height ?m) (set_parent (Some (addr ?m)) l)
                 (set_parent (Some (addr ?m)) (EraseMin r)) p (is_end ?m))"
      using z nl E1 by simp
    ultimately show ?thesis using E1 by (simp add: Let_def bst_FixBalance)
  next
    case E2
    let ?m = "FindMin r"
    from keys_EraseMin [OF E2(3) br nr E2(4)] E2(1)
    have k: "keys (EraseMin r) = keys r - {key ?m}" by simp
    from FindMin_key [OF br E2(3,4) nr] E2(1)
    have m: "key ?m \<in> keys r" "\<forall>x\<in>keys r. key ?m \<le> x" by simp_all
    from bst_EraseMin [OF br nr E2(4)] E2(1) have b: "bst (EraseMin r)" by simp
    have "bst (Node (addr ?m) (key ?m) (height ?m) (set_parent (Some (addr ?m)) l)
                 (set_parent (Some (addr ?m)) (EraseMin r)) p (is_end ?m))"
      using b bl k m E2 Node.prems(1) by (auto simp: le_less intro: less_trans)
    moreover have "noend (Node (addr ?m) (key ?m) (height ?m) (set_parent (Some (addr ?m)) l)
                 (set_parent (Some (addr ?m)) (EraseMin r)) p (is_end ?m)) \<or>
       endtree (Node (addr ?m) (key ?m) (height ?m) (set_parent (Some (addr ?m)) l)
                 (set_parent (Some (addr ?m)) (EraseMin r)) p (is_end ?m))"
      using nl nr E2 by (auto simp: endtree_EraseMin)
    ultimately show ?thesis using E2 by (simp add: Let_def bst_FixBalance)
  qed
qed

lemma avl_end_left_leaf:
  "avl (Node a x h l Null p e) \<Longrightarrow> l \<noteq> Null \<Longrightarrow> left l = Null \<and> right l = Null"
  by (cases l) (auto simp: max_def split: if_splits)

lemma Find_iff:
  "bst t \<Longrightarrow> avl t \<Longrightarrow> noend t \<or> endtree t \<Longrightarrow> (Find t k \<noteq> None) = (k \<in> keys t)"
proof (induction t)
  case Null
  then show ?case by simp
next
  case (Node a x h l r p e)
  show ?case
  proof (cases e)
    case True
    with Node.prems have r: "r = Null" and nl: "noend l" by (auto dest: noend_not_endtree)
    show ?thesis
    proof (cases l)
      case Null
      with True r show ?thesis by simp
    next
      case (Node la lx lh ll lr lp le)
      with avl_end_left_leaf [of a x h l p e] r Node.prems(2)
      have "ll = Null" "lr = Null" by auto
      with Node True r nl show ?thesis by auto
    qed
  next
    case False
    with Node show ?thesis by (auto split: if_splits)
  qed
qed

section \<open>Addresses, parent fields and the pointer to the sentinel\<close>

lemma set_parent_addr_simps [simp]:
  "addrs (set_parent q t) = addrs t"
  "addrs_distinct (set_parent q t) = addrs_distinct t"
  "ptr (set_parent q t) = ptr t"
  by (cases t; simp)+

lemma pok_set_parent [simp]: "parent_ok q' t \<Longrightarrow> parent_ok q (set_parent q t)"
  by (cases t) auto

lemma FixHeight_addr_simps [simp]:
  "addrs (FixHeight t) = addrs t"
  "addrs_distinct (FixHeight t) = addrs_distinct t"
  "parent_ok q (FixHeight t) = parent_ok q t"
  "ptr (FixHeight t) = ptr t"
  by (cases t; simp)+

lemma RightRotation_Null [simp]: "(RightRotation t = Null) = (t = Null)"
  by (induction t rule: RightRotation.induct) auto

lemma LeftRotation_Null [simp]: "(LeftRotation t = Null) = (t = Null)"
  by (induction t rule: LeftRotation.induct) auto

lemma endtree_not_Null: "endtree t \<Longrightarrow> t \<noteq> Null"
  by auto

lemma FixBalance_Null [simp]: "(FixBalance t = Null) = (t = Null)"
proof (cases t)
  case Null
  then show ?thesis by (simp add: FixBalance_def)
next
  case (Node a x h l r p e)
  show ?thesis using Node by (auto simp: FixBalance_def Let_def)
qed

lemma Insert_Null [simp]: "Insert t k par n \<noteq> Null"
  by (cases t) auto

lemma addrs_RightRotation [simp]: "addrs (RightRotation t) = addrs t"
  by (induction t rule: RightRotation.induct) auto

lemma addrs_LeftRotation [simp]: "addrs (LeftRotation t) = addrs t"
  by (induction t rule: LeftRotation.induct) auto

lemma dist_RightRotation [simp]: "addrs_distinct t \<Longrightarrow> addrs_distinct (RightRotation t)"
  by (induction t rule: RightRotation.induct) auto

lemma dist_LeftRotation [simp]: "addrs_distinct t \<Longrightarrow> addrs_distinct (LeftRotation t)"
  by (induction t rule: LeftRotation.induct) auto

lemma pok_RightRotation [simp]: "parent_ok q t \<Longrightarrow> parent_ok q (RightRotation t)"
  by (induction t rule: RightRotation.induct) auto

lemma pok_LeftRotation [simp]: "parent_ok q t \<Longrightarrow> parent_ok q (LeftRotation t)"
  by (induction t rule: LeftRotation.induct) auto

lemma addrs_FixBalance [simp]: "addrs (FixBalance t) = addrs t"
  by (cases t) (auto simp: FixBalance_def Let_def)

lemma dist_FixBalance [simp]: "addrs_distinct t \<Longrightarrow> addrs_distinct (FixBalance t)"
  by (cases t) (auto simp: FixBalance_def Let_def)

lemma pok_FixBalance [simp]: "parent_ok q t \<Longrightarrow> parent_ok q (FixBalance t)"
  by (cases t) (auto simp: FixBalance_def Let_def)

lemma addrs_Insert [simp]: "addrs (Insert t k par n) = insert n (addrs t)"
  by (induction t arbitrary: par) auto

lemma dist_Insert [simp]: "addrs_distinct t \<Longrightarrow> n \<notin> addrs t \<Longrightarrow> addrs_distinct (Insert t k par n)"
  by (induction t arbitrary: par) auto

lemma pok_Insert [simp]: "parent_ok par t \<Longrightarrow> parent_ok par (Insert t k par n)"
  by (induction t arbitrary: par) auto

lemma FindMin_addr: "t \<noteq> Null \<Longrightarrow> addr (FindMin t) \<in> addrs t"
  by (induction t) auto

lemma addrs_EraseMin:
  "t \<noteq> Null \<Longrightarrow> addrs_distinct t \<Longrightarrow> addrs (EraseMin t) = addrs t - {addr (FindMin t)}"
proof (induction t)
  case Null
  then show ?case by simp
next
  case (Node a x h l r p e)
  show ?case
  proof (cases "l = Null")
    case True
    with Node.prems show ?thesis by auto
  next
    case False
    from FindMin_addr [OF False] Node.prems Node.IH(1) False
    show ?thesis by auto
  qed
qed

lemma dist_EraseMin [simp]: "addrs_distinct t \<Longrightarrow> addrs_distinct (EraseMin t)"
proof (induction t)
  case Null
  then show ?case by simp
next
  case (Node a x h l r p e)
  then show ?case
    by (cases "l = Null") (auto simp: addrs_EraseMin intro!: dist_FixBalance)
qed

lemma pok_EraseMin [simp]: "parent_ok q t \<Longrightarrow> parent_ok q (EraseMin t)"
  by (induction t arbitrary: q) auto

lemma addrs_Erase: "addrs_distinct t \<Longrightarrow> addrs (Erase t k) \<subseteq> addrs t"
proof (induction t)
  case Null
  then show ?case by simp
next
  case (Node a x h l r p e)
  show ?case
  proof (cases "r = Null")
    case True
    with Node show ?thesis by auto
  next
    case False
    from FindMin_addr [OF False] Node False show ?thesis
      by (auto simp: Let_def addrs_EraseMin)
  qed
qed

lemma dist_Erase [simp]: "addrs_distinct t \<Longrightarrow> addrs_distinct (Erase t k)"
proof (induction t)
  case Null
  then show ?case by simp
next
  case (Node a x h l r p e)
  from Node.prems have dl: "addrs_distinct l" and dr: "addrs_distinct r" by simp_all
  note sl = addrs_Erase [OF dl, of k] and sr = addrs_Erase [OF dr, of k]
  have 1: "addrs_distinct (Node a x h (Erase l k) r p e)"
    using Node.prems Node.IH(1) sl by auto
  have 2: "addrs_distinct (Node a x h l (Erase r k) p e)"
    using Node.prems Node.IH(2) sr by auto
  have 3: "addrs_distinct (Node (addr (FindMin r)) (key (FindMin r)) (height (FindMin r))
              (set_parent (Some (addr (FindMin r))) l)
              (set_parent (Some (addr (FindMin r))) (EraseMin r)) p (is_end (FindMin r)))"
    if "r \<noteq> Null"
    using Node.prems that FindMin_addr [OF that] by (auto simp: addrs_EraseMin)
  show ?case
    using 1 2 3 dl by (auto simp: Let_def intro!: dist_FixBalance)
qed

lemma pok_Erase [simp]: "parent_ok q t \<Longrightarrow> parent_ok q (Erase t k)"
proof (induction t arbitrary: q)
  case Null
  then show ?case by simp
next
  case (Node a x h l r p e)
  have 3: "parent_ok q (Node (addr (FindMin r)) (key (FindMin r)) (height (FindMin r))
              (set_parent (Some (addr (FindMin r))) l)
              (set_parent (Some (addr (FindMin r))) (EraseMin r)) p (is_end (FindMin r)))"
    using Node.prems pok_EraseMin [of "Some a" r]
      pok_set_parent [of "Some a" l "Some (addr (FindMin r))"]
      pok_set_parent [of "Some a" "EraseMin r" "Some (addr (FindMin r))"]
    by simp
  from Node 3 show ?case
    by (auto simp: Let_def intro!: pok_FixBalance)
qed

lemma FindEnd_Null [simp]: "(FindEnd t = Null) = (t = Null)"
  by (induction t) auto

lemma FindEnd_endtree: "endtree t \<Longrightarrow> is_end (FindEnd t) \<and> right (FindEnd t) = Null"
  by (induction t) (auto split: if_splits)

lemma FindEnd_set_parent [simp]: "ptr (FindEnd (set_parent q t)) = ptr (FindEnd t)"
  by (cases t) (auto)

lemma FindEnd_RightRotation [simp]:
  "endtree t \<Longrightarrow> ptr (FindEnd (RightRotation t)) = ptr (FindEnd t)"
  by (induction t rule: RightRotation.induct) (auto split: if_splits)

lemma FindEnd_LeftRotation [simp]:
  "endtree t \<Longrightarrow> ptr (FindEnd (LeftRotation t)) = ptr (FindEnd t)"
  by (induction t rule: LeftRotation.induct) (auto split: if_splits)

lemma FindEnd_FixBalance [simp]:
  "endtree t \<Longrightarrow> ptr (FindEnd (FixBalance t)) = ptr (FindEnd t)"
  by (cases t) (auto simp: FixBalance_def Let_def split: if_splits)

lemma FindEnd_Insert [simp]:
  "endtree t \<Longrightarrow> ptr (FindEnd (Insert t k par n)) = ptr (FindEnd t)"
  by (induction t arbitrary: par) (auto split: if_splits)

lemma FindEnd_EraseMin:
  "endtree t \<Longrightarrow> \<not> is_end (FindMin t) \<Longrightarrow> ptr (FindEnd (EraseMin t)) = ptr (FindEnd t)"
  by (induction t) (auto simp: endtree_EraseMin split: if_splits)

lemma FindEnd_Erase [simp]:
  "endtree t \<Longrightarrow> ptr (FindEnd (Erase t k)) = ptr (FindEnd t)"
proof (induction t)
  case Null
  then show ?case by simp
next
  case (Node a x h l r p e)
  from Node.prems have nl: "noend l" by simp
  consider (L) "e \<or> k < x" | (R) "\<not> e" "\<not> k < x" "x < k"
    | (E1) "\<not> e" "\<not> k < x" "\<not> x < k" "is_end (FindMin r)"
    | (E2) "\<not> e" "\<not> k < x" "\<not> x < k" "\<not> is_end (FindMin r)"
    by blast
  then show ?case
  proof cases
    case L
    have "endtree (Node a x h (Erase l k) r p e)" using Node.prems nl by simp
    from FindEnd_FixBalance [OF this] L show ?thesis by auto
  next
    case R
    with Node.prems have er: "endtree r" by simp
    then have "endtree (Erase r k)" by simp
    then have nn: "Erase r k \<noteq> Null" by auto
    have "endtree (Node a x h l (Erase r k) p e)" using Node.prems nl R er by simp
    from FindEnd_FixBalance [OF this] R Node.IH(2) [OF er] nn er show ?thesis by auto
  next
    case E1
    with Node.prems have er: "endtree r" by simp
    from FindMin_end [OF er E1(4)] obtain ra rx rh rp where
      r: "r = Node ra rx rh Null Null rp True" using er by (cases r) auto
    have "endtree (Node ra rx rh (set_parent (Some ra) l) Null p True)" using nl by simp
    from FindEnd_FixBalance [OF this] E1 r show ?thesis by (simp add: Let_def)
  next
    case E2
    with Node.prems have er: "endtree r" by simp
    let ?m = "FindMin r"
    let ?n = "Node (addr ?m) (key ?m) (height ?m) (set_parent (Some (addr ?m)) l)
                 (set_parent (Some (addr ?m)) (EraseMin r)) p (is_end ?m)"
    from endtree_EraseMin [OF er E2(4)] have ee: "endtree (EraseMin r)" .
    then have "endtree ?n" using nl E2 by simp
    from FindEnd_FixBalance [OF this] E2 ee FindEnd_EraseMin [OF er E2(4)] er
    show ?thesis by (auto simp: Let_def)
  qed
qed

section \<open>Lookup by address and the invariant of the set\<close>

lemma node_at_Null_iff: "(node_at t b = Null) = (b \<notin> addrs t)"
  by (induction t) (auto split: node.splits)

lemma node_at_left:
  "addrs_distinct (Node a k h l r p e) \<Longrightarrow> b \<in> addrs l \<Longrightarrow> node_at (Node a k h l r p e) b = node_at l b"
  using node_at_Null_iff [of l b] by (auto split: node.splits)

lemma node_at_right:
  "addrs_distinct (Node a k h l r p e) \<Longrightarrow> b \<in> addrs r \<Longrightarrow> node_at (Node a k h l r p e) b = node_at r b"
  using node_at_Null_iff [of l b] by (auto split: node.splits)

lemma ptr_addr: "t \<noteq> Null \<Longrightarrow> ptr t = Some (addr t)"
  by (cases t) auto

lemma addr_in_addrs: "t \<noteq> Null \<Longrightarrow> addr t \<in> addrs t"
  by (cases t) auto

lemma node_at_self: "t \<noteq> Null \<Longrightarrow> node_at t (addr t) = t"
  by (cases t) auto

lemma FindEnd_addr: "t \<noteq> Null \<Longrightarrow> addr (FindEnd t) \<in> addrs t"
  by (induction t) auto

lemma node_at_FindEnd: "addrs_distinct t \<Longrightarrow> t \<noteq> Null \<Longrightarrow> node_at t (addr (FindEnd t)) = FindEnd t"
proof (induction t)
  case Null
  then show ?case by simp
next
  case (Node a k h l r p e)
  show ?case
  proof (cases "r = Null")
    case True
    then show ?thesis by simp
  next
    case False
    from FindEnd_addr [OF False] Node.prems(1)
    have "node_at (Node a k h l r p e) (addr (FindEnd r)) = node_at r (addr (FindEnd r))"
      by (rule_tac node_at_right) 
    with Node False show ?thesis by simp
  qed
qed

lemma node_at_FindMin: "addrs_distinct t \<Longrightarrow> t \<noteq> Null \<Longrightarrow> node_at t (addr (FindMin t)) = FindMin t"
proof (induction t)
  case Null
  then show ?case by simp
next
  case (Node a k h l r p e)
  show ?case
  proof (cases "l = Null")
    case True
    then show ?thesis by simp
  next
    case False
    from FindMin_addr [OF False] Node.prems(1)
    have "node_at (Node a k h l r p e) (addr (FindMin l)) = node_at l (addr (FindMin l))"
      by (rule_tac node_at_left)
    with Node False show ?thesis by simp
  qed
qed

lemma Find_node:
  "bst t \<Longrightarrow> avl t \<Longrightarrow> noend t \<or> endtree t \<Longrightarrow> addrs_distinct t \<Longrightarrow> Find t k = Some b \<Longrightarrow>
   b \<in> addrs t \<and> \<not> is_end (node_at t b) \<and> key (node_at t b) = k"
proof (induction t)
  case Null
  then show ?case by simp
next
  case (Node a x h l r p e)
  show ?case
  proof (cases e)
    case True
    with Node.prems have r: "r = Null" and nl: "noend l" by (auto dest: noend_not_endtree)
    from Node.prems(5) True obtain la lx lh ll lr lp le where
      l: "l = Node la lx lh ll lr lp le" by (cases l) (auto split: if_splits)
    from l Node.prems(5) True have "b = la" "lx = k" by (auto split: if_splits)
    moreover from nl l have "\<not> le" by simp
    moreover from Node.prems(4) l have "la \<noteq> a" by auto
    ultimately show ?thesis using l by auto
  next
    case False
    consider (L) "k < x" | (R) "\<not> k < x" "x < k" | (E) "\<not> k < x" "\<not> x < k" by blast
    then show ?thesis
    proof cases
      case L
      with Node.prems False have f: "Find l k = Some b" by simp
      from Node.prems False have "noend l" by auto
      with Node.IH(1) Node.prems f
      have IH: "b \<in> addrs l \<and> \<not> is_end (node_at l b) \<and> key (node_at l b) = k" by auto
      with node_at_left [OF Node.prems(4), of b] show ?thesis by simp
    next
      case R
      with Node.prems False have f: "Find r k = Some b" by simp
      from Node.prems False have "noend r \<or> endtree r" by auto
      with Node.IH(2) Node.prems f
      have IH: "b \<in> addrs r \<and> \<not> is_end (node_at r b) \<and> key (node_at r b) = k" by auto
      with node_at_right [OF Node.prems(4), of b] show ?thesis by simp
    next
      case E
      with Node.prems False show ?thesis by auto
    qed
  qed
qed

lemma Set_inv_new: "Set_inv (Set_new d n)"
  by (simp add: Set_inv_def Set_new_def)

lemma Set_inv_insert:
  assumes "Set_inv s" "n \<notin> addrs (root_m s)"
  shows "Set_inv (Set_insert s k n)"
proof (cases "Find (root_m s) k = None")
  case False
  with assms show ?thesis by (auto simp: Set_insert_def)
next
  case True
  from assms(1) have i: "avl (root_m s)" "bst (root_m s)" "endtree (root_m s)"
    "addrs_distinct (root_m s)" "parent_ok None (root_m s)" "size_m s = card (keys (root_m s))"
    "end_m s = ptr (FindEnd (root_m s))"
    by (simp_all add: Set_inv_def)
  from Find_iff [OF i(2) i(1), of k] i(3) True have nk: "k \<notin> keys (root_m s)" by auto
  from avl_Insert [OF i(1), of k None n] have "avl (Insert (root_m s) k None n)" by simp
  moreover from bst_Insert [OF i(2) _ nk] i(3) have "bst (Insert (root_m s) k None n)" by simp
  ultimately show ?thesis using True i assms(2) nk
    by (simp add: Set_inv_def Set_insert_def)
qed

lemma Set_inv_erase:
  assumes "Set_inv s"
  shows "Set_inv (Set_erase s k)"
proof (cases "Find (root_m s) k = None")
  case True
  with assms show ?thesis by (auto simp: Set_erase_def)
next
  case False
  from assms(1) have i: "avl (root_m s)" "bst (root_m s)" "endtree (root_m s)"
    "addrs_distinct (root_m s)" "parent_ok None (root_m s)" "size_m s = card (keys (root_m s))"
    "end_m s = ptr (FindEnd (root_m s))"
    by (simp_all add: Set_inv_def)
  from Find_iff [OF i(2) i(1), of k] i(3) False have nk: "k \<in> keys (root_m s)" by auto
  from avl_Erase [OF i(1), of k] have "avl (Erase (root_m s) k)" by simp
  moreover from bst_Erase [OF i(2)] i(3) have "bst (Erase (root_m s) k)" by simp
  moreover from keys_Erase [OF i(2), of k] i(3)
  have "keys (Erase (root_m s) k) = keys (root_m s) - {k}" by simp
  ultimately show ?thesis using False i nk
    by (simp add: Set_inv_def Set_erase_def)
qed

lemma reachable_inv: "reachable s \<Longrightarrow> Set_inv s"
  by (induction rule: reachable.induct)
     (simp_all add: Set_inv_new Set_inv_insert Set_inv_erase)

lemma find_end_iff:
  assumes "Set_inv s"
  shows "(Set_find s k = Set_end s) = (k \<notin> keys (root_m s))"
proof -
  from assms have i: "avl (root_m s)" "bst (root_m s)" "endtree (root_m s)"
    "addrs_distinct (root_m s)" "end_m s = ptr (FindEnd (root_m s))"
    by (simp_all add: Set_inv_def)
  from i(3) have nn: "root_m s \<noteq> Null" by auto
  show ?thesis
  proof (cases "Find (root_m s) k")
    case None
    with Find_iff [OF i(2) i(1), of k] i(3) show ?thesis
      by (simp add: Set_find_def Set_end_def)
  next
    case (Some b)
    from Find_node [OF i(2) i(1) _ i(4) Some] i(3)
    have b: "\<not> is_end (node_at (root_m s) b)" by simp
    from FindEnd_endtree [OF i(3)] node_at_FindEnd [OF i(4) nn]
    have "is_end (node_at (root_m s) (addr (FindEnd (root_m s))))" by simp
    with b have "b \<noteq> addr (FindEnd (root_m s))" by auto
    moreover from nn have "ptr (FindEnd (root_m s)) = Some (addr (FindEnd (root_m s)))"
      by (simp add: ptr_addr)
    ultimately show ?thesis using Some Find_iff [OF i(2) i(1), of k] i(3) i(5)
      by (simp add: Set_find_def Set_end_def)
  qed
qed

section \<open>The sentinel and the largest key\<close>

lemma noend_count: "noend t \<Longrightarrow> count_end t = 0"
  by (induction t) auto

lemma endtree_count: "endtree t \<Longrightarrow> count_end t = 1 \<and> right_reaches_end t"
  by (induction t) (auto simp: noend_count split: if_splits)

lemma sentinel_left_max:
  "endtree t \<Longrightarrow> bst t \<Longrightarrow> avl t \<Longrightarrow> left (FindEnd t) \<noteq> Null \<Longrightarrow>
   left (left (FindEnd t)) = Null \<and> right (left (FindEnd t)) = Null \<and>
   \<not> is_end (left (FindEnd t)) \<and> key (left (FindEnd t)) \<in> keys t \<and>
   (\<forall>y\<in>keys t. y \<le> key (left (FindEnd t)))"
proof (induction t)
  case Null
  then show ?case by simp
next
  case (Node a x h l r p e)
  show ?case
  proof (cases e)
    case True
    with Node.prems have r: "r = Null" and nl: "noend l" by auto
    from Node.prems(4) r have "l \<noteq> Null" by simp
    then obtain la lx lh ll lr lp le where l: "l = Node la lx lh ll lr lp le" by (cases l) auto
    with avl_end_left_leaf [of a x h l p e] r Node.prems(3)
    have "ll = Null" "lr = Null" by auto
    with l r nl True show ?thesis by auto
  next
    case False
    with Node.prems have er: "endtree r" and br: "bst r" and ar: "avl r" by auto
    then have rn: "r \<noteq> Null" by auto
    with Node.prems(4) have "left (FindEnd r) \<noteq> Null" by simp
    from Node.IH(2) [OF er br ar this] rn Node.prems(2) False show ?thesis
      by (fastforce simp: less_imp_le intro: less_trans)
  qed
qed

lemma empty_root_end: "endtree t \<Longrightarrow> keys t = {} \<Longrightarrow> is_end t"
  by (cases t) (auto split: if_splits)

lemma root_end_small: "endtree t \<Longrightarrow> avl t \<Longrightarrow> is_end t \<Longrightarrow> card (keys t) \<le> 1"
proof (cases t)
  case Null
  then show ?thesis by simp
next
  case (Node a x h l r p e)
  assume a: "endtree t" "avl t" "is_end t"
  with Node have r: "r = Null" and e: e by auto
  show ?thesis
  proof (cases "l = Null")
    case True
    with Node r e show ?thesis by simp
  next
    case False
    with avl_end_left_leaf [of a x h l p e] a(2) Node r
    have "left l = Null" "right l = Null" by auto
    with False have "card (keys l) \<le> 1" by (cases l) auto
    with Node r e show ?thesis by simp
  qed
qed

lemma reachable_facts:
  assumes "reachable s"
  shows "avl (root_m s)" "bst (root_m s)" "endtree (root_m s)" "addrs_distinct (root_m s)"
    "parent_ok None (root_m s)" "size_m s = card (keys (root_m s))"
    "end_m s = ptr (FindEnd (root_m s))" "root_m s \<noteq> Null"
  using reachable_inv [OF assms] by (auto simp: Set_inv_def)

lemma deref_end:
  assumes "reachable s"
  shows "deref (root_m s) (Set_end s) = FindEnd (root_m s)"
proof -
  note f = reachable_facts [OF assms]
  from f(8) have "ptr (FindEnd (root_m s)) = Some (addr (FindEnd (root_m s)))"
    by (simp add: ptr_addr)
  with f(7) node_at_FindEnd [OF f(4) f(8)] show ?thesis by (simp add: Set_end_def)
qed

section \<open>In-order traversal and iterators\<close>

lemma GGP_step:
  "deref root it = Node a x h l r p e \<Longrightarrow> \<not> e \<Longrightarrow> \<not> k < x \<Longrightarrow> p \<noteq> None \<Longrightarrow>
   GetGreaterParent root k it = GetGreaterParent root k p"
  by (subst GetGreaterParent.simps) simp

lemma GGP_stop:
  "deref root it = Node a x h l r p e \<Longrightarrow> e \<or> k < x \<or> p = None \<Longrightarrow>
   GetGreaterParent root k it = Some it"
  by (subst GetGreaterParent.simps) auto

lemma sub_refl: "sub t t"
  by (simp add: sub_def)

lemma sub_left:
  "sub root (Node a k h l r p e) \<Longrightarrow> addrs_distinct (Node a k h l r p e) \<Longrightarrow> sub root l"
  unfolding sub_def using node_at_left [of a k h l r p e] by auto

lemma sub_right:
  "sub root (Node a k h l r p e) \<Longrightarrow> addrs_distinct (Node a k h l r p e) \<Longrightarrow> sub root r"
  unfolding sub_def using node_at_right [of a k h l r p e] by auto

lemma sub_deref: "sub root t \<Longrightarrow> t \<noteq> Null \<Longrightarrow> deref root (ptr t) = t"
  by (cases t) (auto simp: sub_def)

lemma inorder_Nil [simp]: "(inorder t = []) = (t = Null)"
  by (cases t) auto

lemma hd_inorder: "t \<noteq> Null \<Longrightarrow> hd (inorder t) = GetLeftmost t"
  by (induction t) (auto simp: hd_append)

lemma last_inorder: "t \<noteq> Null \<Longrightarrow> last (inorder t) = GetRightmost t"
  by (induction t) (auto)

lemma GetLeftmost_FindMin: "GetLeftmost t = FindMin t"
  by (induction t) auto

lemma GetRightmost_FindEnd: "GetRightmost t = FindEnd t"
  by (induction t) auto

lemma GetRightmost_Null [simp]: "(GetRightmost t = Null) = (t = Null)"
  by (induction t) auto

lemma GetRightmost_key: "noend t \<Longrightarrow> t \<noteq> Null \<Longrightarrow> key (GetRightmost t) \<in> keys t"
  by (induction t) auto

lemma GetRightmost_max:
  "bst t \<Longrightarrow> noend t \<Longrightarrow> t \<noteq> Null \<Longrightarrow> \<forall>y\<in>keys t. \<not> key (GetRightmost t) < y"
proof (induction t)
  case Null
  then show ?case by simp
next
  case (Node a x h l r p e)
  show ?case
  proof (cases "r = Null")
    case True
    with Node.prems show ?thesis by (auto simp: not_less less_imp_le)
  next
    case False
    with Node.prems Node.IH(2) have IH: "\<forall>y\<in>keys r. \<not> key (GetRightmost r) < y" by simp
    from GetRightmost_key [of r] Node.prems False have m: "key (GetRightmost r) \<in> keys r" by simp
    with Node.prems(1,2) have xm: "x < key (GetRightmost r)" by auto
    have "\<not> key (GetRightmost r) < y" if "y \<in> keys l" for y
    proof -
      from that Node.prems(1,2) have "y < x" by auto
      with xm show ?thesis by (simp add: not_less less_imp_le less_trans)
    qed
    with IH xm Node.prems(1,2) False show ?thesis
      by (auto simp: not_less less_imp_le)
  qed
qed

lemma climb_spine:
  "sub root t \<Longrightarrow> addrs_distinct t \<Longrightarrow> parent_ok par t \<Longrightarrow> noend t \<Longrightarrow> t \<noteq> Null \<Longrightarrow>
   \<forall>y\<in>keys t. \<not> k < y \<Longrightarrow>
   GetGreaterParent root k (ptr (GetRightmost t)) = GetGreaterParent root k (ptr t)"
proof (induction t arbitrary: par)
  case Null
  then show ?case by simp
next
  case (Node a x h l r p e)
  show ?case
  proof (cases "r = Null")
    case True
    then show ?thesis by simp
  next
    case False
    then obtain ra rx rh rl rr rp re where r: "r = Node ra rx rh rl rr rp re" by (cases r) auto
    from sub_right [OF Node.prems(1,2)] have sr: "sub root r" .
    from Node.prems have "addrs_distinct r" "parent_ok (Some a) r" "noend r"
      "\<forall>y\<in>keys r. \<not> k < y" by auto
    from Node.IH(2) [OF sr this(1,2,3) False this(4)]
    have 1: "GetGreaterParent root k (ptr (GetRightmost r)) = GetGreaterParent root k (ptr r)" .
    from sub_deref [OF sr False] have d: "deref root (ptr r) = r" .
    from Node.prems r have "\<not> re" "\<not> k < rx" "rp = Some a" by auto
    with GGP_step [of root "ptr r" ra rx rh rl rr rp re k] d r
    have "GetGreaterParent root k (ptr r) = GetGreaterParent root k (Some a)" by simp
    with 1 False show ?thesis by simp
  qed
qed

lemma chain_append:
  "chain root (xs @ ys) =
     (chain root xs \<and> chain root ys \<and>
      (xs \<noteq> [] \<and> ys \<noteq> [] \<longrightarrow> incr root (ptr (last xs)) = Some (ptr (hd ys))))"
proof (induction root xs rule: chain.induct)
  case (1 root)
  then show ?case by simp
next
  case (2 root u)
  then show ?case by (cases ys) auto
next
  case (3 root u v vs)
  then show ?case by auto
qed

lemma chain_Cons:
  "chain root (u # vs) =
     (chain root vs \<and> (vs \<noteq> [] \<longrightarrow> incr root (ptr u) = Some (ptr (hd vs))))"
  by (cases vs) auto

lemma key_root_in_keys: "noend t \<Longrightarrow> t \<noteq> Null \<Longrightarrow> key t \<in> keys t"
  by (cases t) auto

lemma climb_to_parent:
  assumes "sub root c" "c \<noteq> Null" "noend c" "bst c" "parent_ok (Some a) c"
  shows "GetGreaterParent root (key (GetRightmost c)) (ptr c) =
         GetGreaterParent root (key (GetRightmost c)) (Some a)"
proof -
  obtain ca cx ch cl cr cp ce where c: "c = Node ca cx ch cl cr cp ce"
    using assms(2) by (cases c) auto
  from sub_deref [OF assms(1,2)] have d: "deref root (ptr c) = c" .
  from GetRightmost_max [OF assms(4,3,2)] key_root_in_keys [OF assms(3,2)] c
  have "\<not> key (GetRightmost c) < cx" by auto
  moreover from assms(3,5) c have "\<not> ce" "cp = Some a" by auto
  ultimately show ?thesis
    using GGP_step [of root "ptr c" ca cx ch cl cr cp ce "key (GetRightmost c)"] d c by simp
qed

lemma incr_chain:
  "sub root t \<Longrightarrow> addrs_distinct t \<Longrightarrow> parent_ok par t \<Longrightarrow> bst t \<Longrightarrow> noend t \<or> endtree t \<Longrightarrow>
   chain root (inorder t) \<and>
   (noend t \<longrightarrow> t \<noteq> Null \<longrightarrow>
      incr root (ptr (GetRightmost t)) =
      GetGreaterParent root (key (GetRightmost t)) (ptr t))"
proof (induction t arbitrary: par)
  case Null
  then show ?case by simp
next
  case (Node a x h l r p e)
  let ?t = "Node a x h l r p e"
  from sub_left [OF Node.prems(1,2)] have sl: "sub root l" .
  from sub_right [OF Node.prems(1,2)] have sr: "sub root r" .
  from Node.prems have dl: "addrs_distinct l" and dr: "addrs_distinct r"
    and pl: "parent_ok (Some a) l" and pr: "parent_ok (Some a) r"
    and bl: "bst l" and br: "bst r" by auto
  from Node.prems(5) have nl: "noend l" by (auto split: if_splits)
  from Node.prems(5) have er: "e \<Longrightarrow> r = Null" by (auto dest: noend_not_endtree)
  from Node.prems(5) have nr: "r \<noteq> Null \<Longrightarrow> noend r \<or> endtree r"
    by (auto split: if_splits)
  from sub_deref [OF Node.prems(1)] have d: "deref root (Some a) = ?t" by simp
  from Node.IH(1) [OF sl dl pl bl] nl
  have IHl: "chain root (inorder l)"
    "l \<noteq> Null \<Longrightarrow> incr root (ptr (GetRightmost l)) =
       GetGreaterParent root (key (GetRightmost l)) (ptr l)" by auto
  have IHr: "chain root (inorder r)"
    "noend r \<Longrightarrow> r \<noteq> Null \<Longrightarrow> incr root (ptr (GetRightmost r)) =
       GetGreaterParent root (key (GetRightmost r)) (ptr r)"
  proof -
    show "chain root (inorder r)"
    proof (cases "r = Null")
      case True
      then show ?thesis by simp
    next
      case False
      from Node.IH(2) [OF sr dr pr br nr [OF False]] show ?thesis by simp
    qed
    show "incr root (ptr (GetRightmost r)) =
       GetGreaterParent root (key (GetRightmost r)) (ptr r)" if "noend r" "r \<noteq> Null"
      using Node.IH(2) [OF sr dr pr br] that by simp
  qed
  have link_r: "incr root (ptr ?t) = Some (ptr (hd (inorder r)))" if "r \<noteq> Null"
  proof -
    from er that have "\<not> e" by auto
    with d that show ?thesis
      by (simp add: incr_def hd_inorder)
  qed
  have link_l: "incr root (ptr (last (inorder l))) = Some (ptr ?t)" if "l \<noteq> Null"
  proof -
    let ?k = "key (GetRightmost l)"
    from IHl(2) [OF that] climb_to_parent [OF sl that nl bl pl]
    have 1: "incr root (ptr (GetRightmost l)) = GetGreaterParent root ?k (Some a)" by simp
    have "e \<or> ?k < x"
    proof (cases e)
      case True
      then show ?thesis by simp
    next
      case False
      from GetRightmost_key [OF nl that] Node.prems(4) False show ?thesis by auto
    qed
    with GGP_stop [of root "Some a" a x h l r p e ?k] d
    have "GetGreaterParent root ?k (Some a) = Some (Some a)" by auto
    with 1 that show ?thesis by (simp add: last_inorder)
  qed
  have C: "chain root (inorder ?t)"
    using IHl(1) IHr(1) link_l link_r by (simp add: chain_append chain_Cons)
  have L: "incr root (ptr (GetRightmost ?t)) =
      GetGreaterParent root (key (GetRightmost ?t)) (ptr ?t)" if n: "noend ?t"
  proof (cases "r = Null")
    case True
    with d n show ?thesis by (simp add: incr_def)
  next
    case False
    from n have "noend r" by simp
    from IHr(2) [OF this False] climb_to_parent [OF sr False this br pr] False
    show ?thesis by simp
  qed
  from C L show ?case by blast
qed

lemma inorder_nodes: "u \<in> set (inorder t) \<Longrightarrow> u \<noteq> Null \<and> addr u \<in> addrs t"
  by (induction t) auto

lemma inorder_node_at:
  "addrs_distinct t \<Longrightarrow> u \<in> set (inorder t) \<Longrightarrow> node_at t (addr u) = u"
proof (induction t)
  case Null
  then show ?case by simp
next
  case (Node a x h l r p e)
  from Node.prems(2) consider "u \<in> set (inorder l)" | "u = Node a x h l r p e"
    | "u \<in> set (inorder r)" by auto
  then show ?case
  proof cases
    case 1
    from inorder_nodes [OF 1] node_at_left [OF Node.prems(1), of "addr u"] Node.IH(1) 1 Node.prems(1)
    show ?thesis by simp
  next
    case 2
    then show ?thesis by simp
  next
    case 3
    from inorder_nodes [OF 3] node_at_right [OF Node.prems(1), of "addr u"] Node.IH(2) 3 Node.prems(1)
    show ?thesis by simp
  qed
qed

lemma inorder_addrs: "set (map addr (inorder t)) = addrs t"
  by (induction t) auto

lemma inorder_distinct: "addrs_distinct t \<Longrightarrow> distinct (map addr (inorder t))"
proof (induction t)
  case Null
  then show ?case by simp
next
  case (Node a x h l r p e)
  from Node show ?case
    using inorder_addrs [of l] inorder_addrs [of r] by auto
qed

lemma noend_inorder: "noend t \<Longrightarrow> u \<in> set (inorder t) \<Longrightarrow> \<not> is_end u"
  by (induction t) auto

lemma endtree_inorder:
  "endtree t \<Longrightarrow> \<exists>ns. inorder t = ns @ [FindEnd t] \<and> (\<forall>u\<in>set ns. \<not> is_end u)"
proof (induction t)
  case Null
  then show ?case by simp
next
  case (Node a x h l r p e)
  show ?case
  proof (cases e)
    case True
    with Node.prems have "r = Null" "noend l" by auto
    then show ?thesis using noend_inorder [of l] by auto
  next
    case False
    with Node.prems have er: "endtree r" and nl: "noend l" by auto
    from Node.IH(2) [OF er] obtain ns where
      ns: "inorder r = ns @ [FindEnd r]" "\<forall>u\<in>set ns. \<not> is_end u" by blast
    from er have "r \<noteq> Null" by auto
    with ns nl False noend_inorder [of l]
    have "inorder (Node a x h l r p e) = (inorder l @ [Node a x h l r p e] @ ns) @ [FindEnd (Node a x h l r p e)]
          \<and> (\<forall>u\<in>set (inorder l @ [Node a x h l r p e] @ ns). \<not> is_end u)"
      by auto
    then show ?thesis by blast
  qed
qed

lemma set_key_nodes: "key ` set (key_nodes t) = keys t"
  unfolding key_nodes_def by (induction t) auto

lemma sorted_key_nodes:
  "bst t \<Longrightarrow> noend t \<or> endtree t \<Longrightarrow> sorted_wrt (<) (map key (key_nodes t))"
proof (induction t)
  case Null
  then show ?case by (simp add: key_nodes_def)
next
  case (Node a x h l r p e)
  from Node.prems have nl: "noend l" and bl: "bst l" and br: "bst r"
    by (auto split: if_splits)
  from Node.prems have er: "e \<Longrightarrow> r = Null" by (auto dest: noend_not_endtree)
  from Node.prems have nr: "\<not> e \<Longrightarrow> noend r \<or> endtree r" by auto
  from Node.IH(1) [OF bl] nl have sl: "sorted_wrt (<) (map key (key_nodes l))" by simp
  have sr: "sorted_wrt (<) (map key (key_nodes r))"
  proof (cases e)
    case True
    with er show ?thesis by (simp add: key_nodes_def)
  next
    case False
    from Node.IH(2) [OF br nr [OF False]] show ?thesis .
  qed
  have kl: "set (map key (key_nodes l)) = keys l" using set_key_nodes [of l] by simp
  have kr: "set (map key (key_nodes r)) = keys r" using set_key_nodes [of r] by simp
  show ?case
  proof (cases e)
    case True
    with er sl show ?thesis by (simp add: key_nodes_def)
  next
    case False
    have "key_nodes (Node a x h l r p e) = key_nodes l @ [Node a x h l r p e] @ key_nodes r"
      using False by (simp add: key_nodes_def)
    moreover have "\<forall>y\<in>keys l. \<forall>z\<in>keys r. y < z"
      using Node.prems(1) False by (auto intro: less_trans)
    ultimately show ?thesis
      using sl sr kl kr Node.prems(1) False
      by (simp add: sorted_wrt_append)
  qed
qed

lemma walk_chain:
  "chain root (xs @ [z]) \<Longrightarrow> \<forall>u\<in>set xs. u \<noteq> Null \<and> deref root (ptr u) = u \<Longrightarrow>
   m \<le> length xs \<Longrightarrow>
   walk root m (ptr (hd (xs @ [z]))) = Some (map key (take m xs), ptr ((xs @ [z]) ! m))"
proof (induction m arbitrary: xs)
  case 0
  then show ?case by (cases xs) (auto)
next
  case (Suc m)
  from Suc.prems(3) obtain x xs' where xs: "xs = x # xs'" by (cases xs) auto
  from Suc.prems(1) xs have c: "chain root (xs' @ [z])"
    and i: "incr root (ptr x) = Some (ptr (hd (xs' @ [z])))"
    by (auto simp: chain_Cons)
  from Suc.prems(2) xs have x: "x \<noteq> Null" "deref root (ptr x) = x"
    and r: "\<forall>u\<in>set xs'. u \<noteq> Null \<and> deref root (ptr u) = u" by auto
  from Suc.prems(3) xs have "m \<le> length xs'" by simp
  from Suc.IH [OF c r this] i x xs show ?case by simp
qed

lemma strict_sorted_imp_distinct_aux:
  "sorted_wrt (<) (xs :: ('a::linorder) list) \<Longrightarrow> distinct xs"
  by (induction xs) auto

lemma inorder_root:
  assumes "reachable s"
  obtains ns where "inorder (root_m s) = ns @ [FindEnd (root_m s)]"
    "\<forall>u\<in>set ns. \<not> is_end u" "key_nodes (root_m s) = ns"
    "sorted_wrt (<) (map key ns)" "set (map key ns) = keys (root_m s)"
    "length ns = Set_size s" "chain (root_m s) (ns @ [FindEnd (root_m s)])"
    "\<forall>u\<in>set (ns @ [FindEnd (root_m s)]). u \<noteq> Null \<and> deref (root_m s) (ptr u) = u"
    "distinct (map addr (ns @ [FindEnd (root_m s)]))"
proof -
  note f = reachable_facts [OF assms]
  from endtree_inorder [OF f(3)] obtain ns where
    ns: "inorder (root_m s) = ns @ [FindEnd (root_m s)]" "\<forall>u\<in>set ns. \<not> is_end u" by blast
  from FindEnd_endtree [OF f(3)] ns have kn: "key_nodes (root_m s) = ns"
    by (simp add: key_nodes_def)
  from sorted_key_nodes [OF f(2)] f(3) kn have so: "sorted_wrt (<) (map key ns)" by simp
  from set_key_nodes [of "root_m s"] kn have se: "set (map key ns) = keys (root_m s)" by simp
  from so have "distinct (map key ns)" by (rule strict_sorted_imp_distinct_aux)
  from distinct_card [OF this] se f(6) have le: "length ns = Set_size s"
    by (simp add: Set_size_def)
  from incr_chain [OF sub_refl f(4) f(5) f(2)] f(3) ns
  have ch: "chain (root_m s) (ns @ [FindEnd (root_m s)])" by simp
  have de: "\<forall>u\<in>set (ns @ [FindEnd (root_m s)]). u \<noteq> Null \<and> deref (root_m s) (ptr u) = u"
  proof
    fix u assume "u \<in> set (ns @ [FindEnd (root_m s)])"
    with ns have u: "u \<in> set (inorder (root_m s))" by simp
    from inorder_nodes [OF u] inorder_node_at [OF f(4) u]
    show "u \<noteq> Null \<and> deref (root_m s) (ptr u) = u" by (simp add: ptr_addr)
  qed
  from inorder_distinct [OF f(4)] ns
  have di: "distinct (map addr (ns @ [FindEnd (root_m s)]))" by simp
  from ns kn so se le ch de di show ?thesis by (rule that)
qed

lemma inorder_keys: "u \<in> set (inorder t) \<Longrightarrow> \<not> is_end u \<Longrightarrow> key u \<in> keys t"
  by (induction t) auto

lemma LowerBound_raw:
  "bst t \<Longrightarrow> avl t \<Longrightarrow> noend t \<or> endtree t \<Longrightarrow> t \<noteq> Null \<Longrightarrow>
   (dropWhile (below k) (inorder t) \<noteq> [] \<and>
      LowerBound t par k = ptr (hd (dropWhile (below k) (inorder t)))) \<or>
   (takeWhile (below k) (inorder t) \<noteq> [] \<and>
      LowerBound t par k = ptr (last (takeWhile (below k) (inorder t))))"
proof (induction t arbitrary: par)
  case Null
  then show ?case by simp
next
  case (Node a x h l r p e)
  let ?t = "Node a x h l r p e"
  from Node.prems have nl: "noend l" and bl: "bst l" and br: "bst r"
    and al: "avl l" and ar: "avl r"
    by (auto split: if_splits)
  from Node.prems have er: "e \<Longrightarrow> r = Null" by (auto dest: noend_not_endtree)
  from Node.prems have nr: "\<not> e \<Longrightarrow> noend r \<or> endtree r" by auto
  have keyl: "key u \<in> keys l" if "u \<in> set (inorder l)" for u
    using inorder_keys [OF that] noend_inorder [OF nl that] by simp
  consider (S) e | (L) "\<not> e" "k < x" | (R) "\<not> e" "\<not> k < x" "x < k"
    | (E) "\<not> e" "\<not> k < x" "\<not> x < k" by blast
  then show ?case
  proof cases
    case S
    with er have r: "r = Null" by simp
    show ?thesis
    proof (cases l)
      case Null
      with S r show ?thesis by (simp add: below_def)
    next
      case (Node la lx lh ll lr lp le)
      with avl_end_left_leaf [of a x h l p e] r Node.prems(2)
      have "ll = Null" "lr = Null" by auto
      moreover from nl Node have "\<not> le" by simp
      ultimately show ?thesis using Node S r by (simp add: below_def)
    qed
  next
    case L
    then have nb: "\<not> below k ?t" by (simp add: below_def)
    have io: "inorder ?t = inorder l @ ?t # inorder r" by simp
    from L have LB: "LowerBound ?t par k = LowerBound l (Some a) k" by simp
    show ?thesis
    proof (cases "l = Null")
      case True
      with L nb show ?thesis by simp
    next
      case False
      from Node.IH(1) [OF bl al _ False, of "Some a"] nl
      consider (a) "dropWhile (below k) (inorder l) \<noteq> []"
          "LowerBound l (Some a) k = ptr (hd (dropWhile (below k) (inorder l)))"
        | (b) "takeWhile (below k) (inorder l) \<noteq> []"
          "LowerBound l (Some a) k = ptr (last (takeWhile (below k) (inorder l)))"
        by blast
      then show ?thesis
      proof cases
        case a
        from a(1) obtain u where u: "u \<in> set (inorder l)" "\<not> below k u"
          by (auto simp: dropWhile_eq_Nil_conv)
        have dw: "dropWhile (below k) (inorder ?t) =
                  dropWhile (below k) (inorder l) @ ?t # inorder r"
          unfolding io by (rule dropWhile_append1 [of u "inorder l" "below k", OF u])
        have "dropWhile (below k) (inorder ?t) \<noteq> []" unfolding dw by simp
        moreover have "LowerBound ?t par k = ptr (hd (dropWhile (below k) (inorder ?t)))"
          unfolding dw LB a(2) using a(1) by (simp only: hd_append if_False)
        ultimately show ?thesis by blast
      next
        case b
        have tw: "takeWhile (below k) (inorder ?t) = takeWhile (below k) (inorder l)"
        proof (cases "\<exists>u\<in>set (inorder l). \<not> below k u")
          case True
          then obtain u where u: "u \<in> set (inorder l)" "\<not> below k u" by blast
          show ?thesis unfolding io by (rule takeWhile_append1 [of u "inorder l" "below k", OF u])
        next
          case False
          then have all: "\<And>u. u \<in> set (inorder l) \<Longrightarrow> below k u" by blast
          then have e1: "takeWhile (below k) (inorder l) = inorder l" by simp
          have e2: "takeWhile (below k) (inorder l @ ?t # inorder r) =
                inorder l @ takeWhile (below k) (?t # inorder r)"
            by (rule takeWhile_append2 [of "inorder l" "below k", OF all])
          from nb have e3: "takeWhile (below k) (?t # inorder r) = []" by simp
          show ?thesis unfolding io e2 e3 e1 by simp
        qed
        have "takeWhile (below k) (inorder ?t) \<noteq> []" unfolding tw by (rule b(1))
        moreover have "LowerBound ?t par k = ptr (last (takeWhile (below k) (inorder ?t)))"
          unfolding tw LB by (rule b(2))
        ultimately show ?thesis by blast
      qed
    qed
  next
    case R
    have all: "\<And>u. u \<in> set (inorder l @ [?t]) \<Longrightarrow> below k u"
    proof -
      fix u assume "u \<in> set (inorder l @ [?t])"
      then consider "u \<in> set (inorder l)" | "u = ?t" by auto
      then show "below k u"
      proof cases
        case 1
        from keyl [OF 1] Node.prems(1) R have "key u < x" by auto
        with R(3) noend_inorder [OF nl 1] show ?thesis by (auto simp: below_def)
      next
        case 2
        with R show ?thesis by (simp add: below_def)
      qed
    qed
    have tw: "takeWhile (below k) (inorder ?t) = (inorder l @ [?t]) @ takeWhile (below k) (inorder r)"
      using takeWhile_append2 [of "inorder l @ [?t]" "below k" "inorder r", OF all] by simp
    have dw: "dropWhile (below k) (inorder ?t) = dropWhile (below k) (inorder r)"
      using dropWhile_append2 [of "inorder l @ [?t]" "below k" "inorder r", OF all] by simp
    show ?thesis
    proof (cases "r = Null")
      case True
      with R tw show ?thesis by simp
    next
      case False
      from Node.IH(2) [OF br ar nr [OF R(1)] False, of "Some a"]
      show ?thesis unfolding tw dw using R by auto
    qed
  next
    case E
    then have nb: "\<not> below k ?t" by (simp add: below_def)
    from E have xk: "x = k" by auto
    have all: "\<And>u. u \<in> set (inorder l) \<Longrightarrow> below k u"
    proof -
      fix u assume 1: "u \<in> set (inorder l)"
      from keyl [OF 1] Node.prems(1) E have "key u < x" by auto
      with xk noend_inorder [OF nl 1] show "below k u" by (auto simp: below_def)
    qed
    from dropWhile_append2 [of "inorder l" "below k" "?t # inorder r", OF all] nb
    have "dropWhile (below k) (inorder ?t) = ?t # inorder r" by simp
    with E show ?thesis by simp
  qed
qed

lemma sweep_stop:
  "it = e \<or> (deref root it \<noteq> Null \<and> \<not> key (deref root it) < k) \<Longrightarrow>
   sweep root e k it = Some it"
  by (subst sweep.simps) (auto split: node.splits)

lemma sweep_step:
  "it \<noteq> e \<Longrightarrow> deref root it \<noteq> Null \<Longrightarrow> key (deref root it) < k \<Longrightarrow>
   incr root it = Some it' \<Longrightarrow> sweep root e k it = sweep root e k it'"
  by (subst sweep.simps) (auto split: node.splits)

lemma lower_bound_split:
  assumes "reachable s"
  obtains A B where
    "inorder (root_m s) = A @ B" "B \<noteq> []"
    "\<forall>u\<in>set A. \<not> is_end u \<and> key u < k"
    "hd B = FindEnd (root_m s) \<or> (\<not> is_end (hd B) \<and> \<not> key (hd B) < k)"
    "Set_lower_bound s k = Some (ptr (hd B))"
    "LowerBound (root_m s) None k = ptr (hd B) \<or>
     (A \<noteq> [] \<and> LowerBound (root_m s) None k = ptr (last A) \<and>
      ptr (last A) \<noteq> Set_end s \<and> incr (root_m s) (ptr (last A)) = Some (ptr (hd B)))"
proof -
  note f = reachable_facts [OF assms]
  let ?S = "FindEnd (root_m s)"
  let ?A = "takeWhile (below k) (inorder (root_m s))"
  let ?B = "dropWhile (below k) (inorder (root_m s))"
  from inorder_root [OF assms] obtain ns where
    ns: "inorder (root_m s) = ns @ [?S]"
    "\<forall>u\<in>set ns. \<not> is_end u" "key_nodes (root_m s) = ns"
    "sorted_wrt (<) (map key ns)" "set (map key ns) = keys (root_m s)"
    "length ns = Set_size s" "chain (root_m s) (ns @ [?S])"
    "\<forall>u\<in>set (ns @ [?S]). u \<noteq> Null \<and> deref (root_m s) (ptr u) = u"
    "distinct (map addr (ns @ [?S]))" by blast
  from FindEnd_endtree [OF f(3)] have Se: "is_end ?S" by simp
  from f(8) have Sn: "?S \<noteq> Null" by simp
  have e: "Set_end s = ptr ?S" using f(7) by (simp add: Set_end_def)
  have AB: "inorder (root_m s) = ?A @ ?B" by simp
  have "\<not> below k ?S" using Se by (simp add: below_def)
  moreover have "?S \<in> set (inorder (root_m s))" using ns(1) by simp
  ultimately have Bn: "?B \<noteq> []" by (auto simp: dropWhile_eq_Nil_conv)
  have Ab: "\<forall>u\<in>set ?A. \<not> is_end u \<and> key u < k"
    using set_takeWhileD [of _ "below k" "inorder (root_m s)"] by (auto simp: below_def)
  have hB: "\<not> below k (hd ?B)" using hd_dropWhile [OF Bn] .
  have hin: "hd ?B \<in> set (inorder (root_m s))"
    using Bn set_dropWhileD [of "hd ?B" "below k" "inorder (root_m s)"] by simp
  have hd: "hd ?B = ?S \<or> (\<not> is_end (hd ?B) \<and> \<not> key (hd ?B) < k)"
  proof (cases "hd ?B = ?S")
    case True
    then show ?thesis by simp
  next
    case False
    with hin ns(1) have "hd ?B \<in> set ns" by simp
    with ns(2) hB show ?thesis by (auto simp: below_def)
  qed
  from hin ns(1,8) have hde: "hd ?B \<noteq> Null" "deref (root_m s) (ptr (hd ?B)) = hd ?B"
    by auto
  have stop: "sweep (root_m s) (end_m s) k (ptr (hd ?B)) = Some (ptr (hd ?B))"
  proof (rule sweep_stop)
    from hd e hde show "ptr (hd ?B) = end_m s \<or>
      (deref (root_m s) (ptr (hd ?B)) \<noteq> Null \<and> \<not> key (deref (root_m s) (ptr (hd ?B))) < k)"
      by (auto simp: Set_end_def)
  qed
  have link: "incr (root_m s) (ptr (last ?A)) = Some (ptr (hd ?B))" if "?A \<noteq> []"
    using ns(7) that Bn unfolding ns(1) [symmetric]
    by (subst (asm) AB) (simp only: chain_append, simp)
  have lastA: "ptr (last ?A) \<noteq> Set_end s \<and> deref (root_m s) (ptr (last ?A)) = last ?A \<and>
               last ?A \<noteq> Null \<and> key (last ?A) < k" if "?A \<noteq> []"
  proof -
    from that have la: "last ?A \<in> set ?A" by simp
    with Ab have b: "\<not> is_end (last ?A)" "key (last ?A) < k" by auto
    from la set_takeWhileD [of "last ?A" "below k" "inorder (root_m s)"]
    have "last ?A \<in> set (inorder (root_m s))" by simp
    with b(1) Se ns(1) have m: "last ?A \<in> set ns" by auto
    from ns(9) have "addr ?S \<notin> addr ` set ns" by simp
    with m have "addr (last ?A) \<noteq> addr ?S" by (metis imageI)
    moreover from m ns(8) have n: "last ?A \<noteq> Null" "deref (root_m s) (ptr (last ?A)) = last ?A"
      by auto
    ultimately show ?thesis using b e Sn by (simp add: ptr_addr)
  qed
  from LowerBound_raw [OF f(2) f(1) _ f(8), of k None] f(3) Bn
  consider (a) "LowerBound (root_m s) None k = ptr (hd ?B)"
    | (b) "?A \<noteq> []" "LowerBound (root_m s) None k = ptr (last ?A)" by blast
  then have res: "Set_lower_bound s k = Some (ptr (hd ?B))"
  proof cases
    case a
    with stop show ?thesis by (simp add: Set_lower_bound_def)
  next
    case b
    from lastA [OF b(1)] link [OF b(1)] e
    have "sweep (root_m s) (end_m s) k (ptr (last ?A)) = sweep (root_m s) (end_m s) k (ptr (hd ?B))"
      by (intro sweep_step) (auto simp: Set_end_def)
    with stop b show ?thesis by (simp add: Set_lower_bound_def)
  qed
  from LowerBound_raw [OF f(2) f(1) _ f(8), of k None] f(3) Bn link lastA
  have raw: "LowerBound (root_m s) None k = ptr (hd ?B) \<or>
     (?A \<noteq> [] \<and> LowerBound (root_m s) None k = ptr (last ?A) \<and>
      ptr (last ?A) \<noteq> Set_end s \<and> incr (root_m s) (ptr (last ?A)) = Some (ptr (hd ?B)))"
    by blast
  from AB Bn Ab hd res raw show ?thesis by (rule that)
qed

lemma sorted_hd_le:
  "sorted_wrt (<) (xs :: ('a::linorder) list) \<Longrightarrow> x \<in> set xs \<Longrightarrow> hd xs \<le> x"
  by (cases xs) (auto simp: less_imp_le)

lemma sorted_le_last:
  "sorted_wrt (<) (xs :: ('a::linorder) list) \<Longrightarrow> x \<in> set xs \<Longrightarrow> x \<le> last xs"
proof (induction xs)
  case Nil
  then show ?case by simp
next
  case (Cons y ys)
  then show ?case by (cases ys) (auto simp: less_imp_le)
qed

lemma lower_bound_facts:
  assumes "reachable s"
  obtains it where
    "Set_lower_bound s k = Some it"
    "(\<forall>y\<in>keys (root_m s). y < k) \<longrightarrow> it = Set_end s"
    "\<not> (\<forall>y\<in>keys (root_m s). y < k) \<longrightarrow>
       it \<noteq> Set_end s \<and> \<not> is_end (deref (root_m s) it) \<and>
       key (deref (root_m s) it) \<in> keys (root_m s) \<and> \<not> key (deref (root_m s) it) < k \<and>
       (\<forall>y\<in>keys (root_m s). \<not> y < k \<longrightarrow> key (deref (root_m s) it) \<le> y)"
    "LowerBound (root_m s) None k = it \<or>
     (LowerBound (root_m s) None k \<noteq> Set_end s \<and>
      \<not> is_end (deref (root_m s) (LowerBound (root_m s) None k)) \<and>
      key (deref (root_m s) (LowerBound (root_m s) None k)) \<in> keys (root_m s) \<and>
      key (deref (root_m s) (LowerBound (root_m s) None k)) < k \<and>
      (\<forall>y\<in>keys (root_m s). y < k \<longrightarrow>
          y \<le> key (deref (root_m s) (LowerBound (root_m s) None k))) \<and>
      incr (root_m s) (LowerBound (root_m s) None k) = Some it)"
proof -
  note f = reachable_facts [OF assms]
  let ?S = "FindEnd (root_m s)"
  let ?t = "root_m s"
  from inorder_root [OF assms] obtain ns where
    ns: "inorder ?t = ns @ [?S]"
    "\<forall>u\<in>set ns. \<not> is_end u" "key_nodes ?t = ns"
    "sorted_wrt (<) (map key ns)" "set (map key ns) = keys ?t"
    "length ns = Set_size s" "chain ?t (ns @ [?S])"
    "\<forall>u\<in>set (ns @ [?S]). u \<noteq> Null \<and> deref ?t (ptr u) = u"
    "distinct (map addr (ns @ [?S]))" by blast
  from lower_bound_split [OF assms, of k] obtain A B where
    AB: "inorder ?t = A @ B" "B \<noteq> []"
    "\<forall>u\<in>set A. \<not> is_end u \<and> key u < k"
    "hd B = ?S \<or> (\<not> is_end (hd B) \<and> \<not> key (hd B) < k)"
    "Set_lower_bound s k = Some (ptr (hd B))"
    "LowerBound ?t None k = ptr (hd B) \<or>
     (A \<noteq> [] \<and> LowerBound ?t None k = ptr (last A) \<and>
      ptr (last A) \<noteq> Set_end s \<and> incr ?t (ptr (last A)) = Some (ptr (hd B)))"
    by blast
  from FindEnd_endtree [OF f(3)] have Se: "is_end ?S" by simp
  from f(8) have Sn: "?S \<noteq> Null" by simp
  have e: "Set_end s = ptr ?S" using f(7) by (simp add: Set_end_def)
  define B' where "B' = butlast B"
  from AB(2) have Bl: "B = B' @ [last B]" by (simp add: B'_def)
  from ns(1) AB(1) Bl have "ns @ [?S] = (A @ B') @ [last B]" by simp
  then have nsAB: "ns = A @ B'" and lB: "last B = ?S" by auto
  have notend: "ptr u \<noteq> Set_end s \<and> deref ?t (ptr u) = u \<and> key u \<in> keys ?t \<and> \<not> is_end u"
    if "u \<in> set ns" for u
  proof -
    from ns(9) have "addr ?S \<notin> addr ` set ns" by simp
    with that have "addr u \<noteq> addr ?S" by (metis imageI)
    moreover from that ns(8) have "u \<noteq> Null" "deref ?t (ptr u) = u" by auto
    moreover from that ns(5) have "key u \<in> keys ?t" by auto
    ultimately show ?thesis using e Sn that ns(2) by (simp add: ptr_addr)
  qed
  have hdB: "hd B = (if B' = [] then ?S else hd B')"
    using Bl lB by (cases B') (auto simp: hd_append)
  have B'_ge: "\<not> key u < k" if "u \<in> set B'" for u
  proof -
    from that have ne: "B' \<noteq> []" by auto
    with hdB have h: "hd B = hd B'" by simp
    from ne nsAB have "hd B' \<in> set ns" by simp
    with ns(2) Se h AB(4) have 1: "\<not> key (hd B') < k" by auto
    from ns(4) nsAB have "sorted_wrt (<) (map key B')" by (simp add: sorted_wrt_append)
    from sorted_hd_le [OF this, of "key u"] that ne have "key (hd B') \<le> key u"
      by (simp add: hd_map)
    with 1 show ?thesis by auto
  qed
  have all_iff: "(\<forall>y\<in>keys ?t. y < k) = (B' = [])"
  proof
    assume a: "\<forall>y\<in>keys ?t. y < k"
    show "B' = []"
    proof (rule ccontr)
      assume "B' \<noteq> []"
      then have "hd B' \<in> set B'" by simp
      with B'_ge [of "hd B'"] nsAB ns(5) a show False by auto
    qed
  next
    assume "B' = []"
    with nsAB AB(3) ns(5) show "\<forall>y\<in>keys ?t. y < k" by force
  qed
  have 2: "(\<forall>y\<in>keys ?t. y < k) \<longrightarrow> ptr (hd B) = Set_end s"
    using all_iff hdB e by simp
  have 3: "\<not> (\<forall>y\<in>keys ?t. y < k) \<longrightarrow>
       ptr (hd B) \<noteq> Set_end s \<and> \<not> is_end (deref ?t (ptr (hd B))) \<and>
       key (deref ?t (ptr (hd B))) \<in> keys ?t \<and> \<not> key (deref ?t (ptr (hd B))) < k \<and>
       (\<forall>y\<in>keys ?t. \<not> y < k \<longrightarrow> key (deref ?t (ptr (hd B))) \<le> y)"
  proof
    assume that: "\<not> (\<forall>y\<in>keys ?t. y < k)"
    from that all_iff have ne: "B' \<noteq> []" by simp
    with hdB have h: "hd B = hd B'" by simp
    from ne have hb: "hd B' \<in> set B'" by simp
    with nsAB have hn: "hd B' \<in> set ns" by simp
    from ns(4) nsAB have so: "sorted_wrt (<) (map key B')" by (simp add: sorted_wrt_append)
    have "key (hd B') \<le> y" if y: "y \<in> keys ?t" "\<not> y < k" for y
    proof -
      from y(1) ns(5) obtain u where u: "u \<in> set ns" "y = key u" by auto
      with y(2) AB(3) nsAB have "u \<in> set B'" by auto
      from sorted_hd_le [OF so, of "key u"] this ne u show ?thesis by (simp add: hd_map)
    qed
    with notend [OF hn] B'_ge [OF hb] h
    show "ptr (hd B) \<noteq> Set_end s \<and> \<not> is_end (deref ?t (ptr (hd B))) \<and>
       key (deref ?t (ptr (hd B))) \<in> keys ?t \<and> \<not> key (deref ?t (ptr (hd B))) < k \<and>
       (\<forall>y\<in>keys ?t. \<not> y < k \<longrightarrow> key (deref ?t (ptr (hd B))) \<le> y)" by simp
  qed
  have 4: "LowerBound ?t None k = ptr (hd B) \<or>
     (LowerBound ?t None k \<noteq> Set_end s \<and>
      \<not> is_end (deref ?t (LowerBound ?t None k)) \<and>
      key (deref ?t (LowerBound ?t None k)) \<in> keys ?t \<and>
      key (deref ?t (LowerBound ?t None k)) < k \<and>
      (\<forall>y\<in>keys ?t. y < k \<longrightarrow> y \<le> key (deref ?t (LowerBound ?t None k))) \<and>
      incr ?t (LowerBound ?t None k) = Some (ptr (hd B)))"
  proof (cases "LowerBound ?t None k = ptr (hd B)")
    case True
    then show ?thesis by simp
  next
    case False
    with AB(6) have A: "A \<noteq> []" "LowerBound ?t None k = ptr (last A)"
      "incr ?t (ptr (last A)) = Some (ptr (hd B))" by auto
    from A(1) have la: "last A \<in> set A" by simp
    with nsAB have ln: "last A \<in> set ns" by simp
    from ns(4) nsAB have so: "sorted_wrt (<) (map key A)" by (simp add: sorted_wrt_append)
    have "y \<le> key (last A)" if y: "y \<in> keys ?t" "y < k" for y
    proof -
      from y(1) ns(5) obtain u where u: "u \<in> set ns" "y = key u" by auto
      with y(2) B'_ge nsAB have "u \<in> set A" by auto
      from sorted_le_last [OF so, of "key u"] this A(1) u show ?thesis by (simp add: last_map)
    qed
    with notend [OF ln] la AB(3) A show ?thesis by simp
  qed
  from AB(5) 2 3 4 show ?thesis by (rule that)
qed

lemma end_parent_max:
  "endtree t \<Longrightarrow> bst t \<Longrightarrow> addrs_distinct t \<Longrightarrow> parent_ok par t \<Longrightarrow> keys t \<noteq> {} \<Longrightarrow>
   left (FindEnd t) = Null \<Longrightarrow>
   \<exists>b. parent (FindEnd t) = Some b \<and> b \<in> addrs t \<and> \<not> is_end (node_at t b) \<and>
       key (node_at t b) \<in> keys t \<and> (\<forall>y\<in>keys t. y \<le> key (node_at t b))"
proof (induction t arbitrary: par)
  case Null
  then show ?case by simp
next
  case (Node a x h l r p e)
  let ?t = "Node a x h l r p e"
  show ?case
  proof (cases e)
    case True
    with Node.prems show ?thesis by auto
  next
    case False
    with Node.prems have er: "endtree r" and br: "bst r" and dr: "addrs_distinct r"
      and pr: "parent_ok (Some a) r" by auto
    from er have rn: "r \<noteq> Null" by auto
    from rn have F: "FindEnd ?t = FindEnd r" by simp
    from Node.prems(6) rn have lf: "left (FindEnd r) = Null" by simp
    show ?thesis
    proof (cases "keys r = {}")
      case True
      from empty_root_end [OF er True] have re: "is_end r" .
      with er have "right r = Null" by (cases r) (auto split: if_splits)
      with rn have Fr: "FindEnd r = r" by (cases r) auto
      from pr rn have "parent r = Some a" by (cases r) auto
      with F Fr Node.prems(2) False True show ?thesis by (auto simp: less_imp_le)
    next
      case kr: False
      from Node.IH(2) [OF er br dr pr kr lf] obtain b where
        b: "parent (FindEnd r) = Some b" "b \<in> addrs r" "\<not> is_end (node_at r b)"
           "key (node_at r b) \<in> keys r" "\<forall>y\<in>keys r. y \<le> key (node_at r b)" by blast
      from node_at_right [OF Node.prems(3) b(2)]
      have n: "node_at ?t b = node_at r b" .
      from b(4) Node.prems(2) False have xb: "x < key (node_at r b)" by auto
      have "\<forall>y\<in>keys ?t. y \<le> key (node_at r b)"
      proof
        fix y assume "y \<in> keys ?t"
        with False consider "y \<in> keys l" | "y = x" | "y \<in> keys r" by auto
        then show "y \<le> key (node_at r b)"
        proof cases
          case 1
          with Node.prems(2) False have "y < x" by auto
          with xb show ?thesis by (simp add: less_imp_le less_trans)
        next
          case 2
          with xb show ?thesis by (simp add: less_imp_le)
        next
          case 3
          with b(5) show ?thesis by simp
        qed
      qed
      with b n F show ?thesis by auto
    qed
  qed
qed

lemma end_left_in_tree:
  "left (FindEnd t) \<noteq> Null \<Longrightarrow> t \<noteq> Null \<Longrightarrow> left (FindEnd t) \<in> set (inorder t)"
proof (induction t)
  case Null
  then show ?case by simp
next
  case (Node a x h l r p e)
  show ?case
  proof (cases "r = Null")
    case True
    with Node.prems show ?thesis by (cases l) auto
  next
    case False
    with Node show ?thesis by auto
  qed
qed

section \<open>The example run\<close>

lemma w_fresh:
  "11 \<notin> addrs (root_m w0)" "12 \<notin> addrs (root_m w1)" "13 \<notin> addrs (root_m w2)"
  "14 \<notin> addrs (root_m w3)" "15 \<notin> addrs (root_m w4)" "16 \<notin> addrs (root_m w5)"
  by code_simp+

lemma w0_reachable: "reachable w0"
  unfolding w0_def by (rule r_new)

lemma w1_reachable: "reachable w1"
  unfolding w1_def using w0_reachable w_fresh(1) by (rule r_insert)

lemma w2_reachable: "reachable w2"
  unfolding w2_def using w1_reachable w_fresh(2) by (rule r_insert)

lemma w3_reachable: "reachable w3"
  unfolding w3_def using w2_reachable w_fresh(3) by (rule r_insert)

lemma w4_reachable: "reachable w4"
  unfolding w4_def using w3_reachable w_fresh(4) by (rule r_insert)

lemma w5_reachable: "reachable w5"
  unfolding w5_def using w4_reachable w_fresh(5) by (rule r_insert)

lemma w5_value:
  "w5 = \<lparr>root_m =
      Node 11 5 3
        (Node 12 3 2 (Node 14 1 1 Null Null (Some 12) False)
           (Node 15 4 1 Null Null (Some 12) False) (Some 11) False)
        (Node 10 0 2 (Node 13 8 1 Null Null (Some 10) False) Null (Some 11) True)
        None False,
     size_m = 5, end_m = Some 10\<rparr>"
  by code_simp

lemma u4_reachable: "reachable u4"
proof -
  have f: "11 \<notin> addrs (root_m (Set_new (0::nat) 10))"
    "12 \<notin> addrs (root_m (Set_insert (Set_new (0::nat) 10) 5 11))"
    "13 \<notin> addrs (root_m (Set_insert (Set_insert (Set_new (0::nat) 10) 5 11) 3 12))"
    "14 \<notin> addrs (root_m (Set_insert (Set_insert (Set_insert (Set_new (0::nat) 10) 5 11) 3 12) 1 13))"
    by code_simp+
  show ?thesis unfolding u4_def
    by (intro r_insert r_new f)
qed

lemma c1_value:
  "u4 = \<lparr>root_m =
      Node 11 5 3
        (Node 12 3 2 (Node 13 1 1 Null Null (Some 12) False)
           (Node 14 4 1 Null Null (Some 12) False) (Some 11) False)
        (Node 10 0 1 Null Null (Some 11) True) None False,
     size_m = 4, end_m = Some 10\<rparr>"
  "c0 = \<lparr>root_m =
      Node 31 5 1
        (Node 32 3 1 (Node 33 1 1 Null Null (Some 32) False)
           (Node 34 4 1 Null Null (Some 32) False) (Some 31) False)
        (Node 30 0 1 Null Null (Some 31) True) None False,
     size_m = 4, end_m = Some 30\<rparr>"
  "c1 = \<lparr>root_m =
      Node 30 0 2
        (Node 32 3 1 (Node 33 1 1 Null Null (Some 32) False)
           (Node 34 4 1 Null Null (Some 32) False) (Some 30) False)
        Null None True,
     size_m = 3, end_m = Some 30\<rparr>"
  by code_simp+

section \<open>The claims\<close>

text \<open>
  Insertion into a set built by \<^verbatim>\<open>Set()\<close>, \<^verbatim>\<open>insert\<close> and \<^verbatim>\<open>erase\<close> alone: afterwards
  \<^verbatim>\<open>find(k)\<close> is not \<^verbatim>\<open>end()\<close>, the size has grown by exactly one when \<open>k\<close> was absent,
  the call changes nothing when \<open>k\<close> was present, and the keys stored are the old ones
  and \<open>k\<close>.
\<close>

theorem insert_member_size:
  assumes "reachable s" and "n \<notin> addrs (root_m s)"
  shows "Set_find (Set_insert s k n) k \<noteq> Set_end (Set_insert s k n) \<and>
         Set_size (Set_insert s k n) =
           (if Set_find s k = Set_end s then Set_size s + 1 else Set_size s) \<and>
         (Set_find s k \<noteq> Set_end s \<longrightarrow> Set_insert s k n = s) \<and>
         keys (root_m (Set_insert s k n)) = insert k (keys (root_m s))"
proof -
  have r': "reachable (Set_insert s k n)" using assms by (rule r_insert)
  note f = reachable_facts [OF assms(1)]
  from Find_iff [OF f(2) f(1), of k] f(3)
  have F: "(Find (root_m s) k \<noteq> None) = (k \<in> keys (root_m s))" by simp
  have K: "keys (root_m (Set_insert s k n)) = insert k (keys (root_m s))"
    using F by (auto simp: Set_insert_def)
  have 1: "Set_find (Set_insert s k n) k \<noteq> Set_end (Set_insert s k n)"
    using find_end_iff [OF reachable_inv [OF r'], of k] K by simp
  have 2: "Set_size (Set_insert s k n) =
           (if Set_find s k = Set_end s then Set_size s + 1 else Set_size s)"
    using find_end_iff [OF reachable_inv [OF assms(1)], of k] F
    by (auto simp: Set_insert_def Set_size_def)
  have 3: "Set_find s k \<noteq> Set_end s \<longrightarrow> Set_insert s k n = s"
    using find_end_iff [OF reachable_inv [OF assms(1)], of k] F
    by (auto simp: Set_insert_def)
  from 1 2 3 K show ?thesis by blast
qed

theorem insert_member_size_witness:
  "reachable w4 \<and> 15 \<notin> addrs (root_m w4) \<and>
   Set_find w4 4 = Set_end w4 \<and>
   Set_find (Set_insert w4 4 15) 4 \<noteq> Set_end (Set_insert w4 4 15) \<and>
   Set_size (Set_insert w4 4 15) = Set_size w4 + 1 \<and>
   Set_find w4 5 \<noteq> Set_end w4 \<and> Set_insert w4 5 15 = w4"
proof -
  have a: "Set_find w4 4 = Set_end w4" by code_simp
  have b: "Set_find w4 5 \<noteq> Set_end w4" by code_simp
  from insert_member_size [OF w4_reachable w_fresh(5), of 4]
       insert_member_size [OF w4_reachable w_fresh(5), of 5]
       a b w4_reachable w_fresh(5)
  show ?thesis by simp
qed

text \<open>
  Claim C1 says of every set that \<^verbatim>\<open>find(k)\<close> is not \<^verbatim>\<open>end()\<close> after \<^verbatim>\<open>insert(k)\<close>.
  A copy has height 1 in every node. In the run with a copy, \<^verbatim>\<open>c.erase(5)\<close> puts the
  sentinel in the place of 5 and, misled by the height 1 of the node of 3, does not
  rotate; \<^verbatim>\<open>c.insert(0)\<close> stores 0 below that node, and \<^verbatim>\<open>c.find(0)\<close>, which looks at
  the left child of the sentinel only, returns \<^verbatim>\<open>end()\<close>.
\<close>

theorem copy_insert_not_found:
  "reachable u4 \<and> c0 = Set_copy u4 (\<lambda>a. a + 20) 0 \<and> c1 = Set_erase c0 5 \<and>
   40 \<notin> addrs (root_m c1) \<and> c2 = Set_insert c1 0 40 \<and>
   0 \<in> keys (root_m c2) \<and> Set_size c2 = Set_size c1 + 1 \<and>
   Set_find c2 0 = Set_end c2"
proof -
  have e:
    "40 \<notin> addrs (root_m c1)"
    "0 \<in> keys (root_m c2)"
    "Set_size c2 = Set_size c1 + 1"
    "Set_find c2 0 = Set_end c2"
    by code_simp+
  show ?thesis
    by (intro conjI) (rule u4_reachable c0_def c1_def c2_def e)+
qed

text \<open>
  Deletion from a set built by \<^verbatim>\<open>Set()\<close>, \<^verbatim>\<open>insert\<close> and \<^verbatim>\<open>erase\<close> alone: afterwards
  \<^verbatim>\<open>find(k)\<close> is \<^verbatim>\<open>end()\<close>, the size has dropped by exactly one when \<open>k\<close> was present
  and the call changes nothing when it was absent. Inserting an absent key and erasing
  it again restores the size.
\<close>

theorem erase_member_size:
  assumes "reachable s"
  shows "Set_find (Set_erase s k) k = Set_end (Set_erase s k) \<and>
         (if Set_find s k = Set_end s
          then Set_erase s k = s
          else Set_size (Set_erase s k) + 1 = Set_size s) \<and>
         keys (root_m (Set_erase s k)) = keys (root_m s) - {k} \<and>
         (\<forall>n. n \<notin> addrs (root_m s) \<and> Set_find s k = Set_end s \<longrightarrow>
              Set_size (Set_erase (Set_insert s k n) k) = Set_size s)"
proof -
  have r': "reachable (Set_erase s k)" using assms by (rule r_erase)
  note f = reachable_facts [OF assms]
  note E = find_end_iff [OF reachable_inv [OF assms], of k]
  from Find_iff [OF f(2) f(1), of k] f(3)
  have F: "(Find (root_m s) k \<noteq> None) = (k \<in> keys (root_m s))" by simp
  from keys_Erase [OF f(2), of k] f(3)
  have KE: "keys (Erase (root_m s) k) = keys (root_m s) - {k}" by simp
  have K: "keys (root_m (Set_erase s k)) = keys (root_m s) - {k}"
    using F KE by (auto simp: Set_erase_def)
  have 1: "Set_find (Set_erase s k) k = Set_end (Set_erase s k)"
    using find_end_iff [OF reachable_inv [OF r'], of k] K by simp
  have 2: "if Set_find s k = Set_end s then Set_erase s k = s
           else Set_size (Set_erase s k) + 1 = Set_size s"
  proof (cases "k \<in> keys (root_m s)")
    case False
    with E F show ?thesis by (auto simp: Set_erase_def)
  next
    case True
    then have "card (keys (root_m s)) > 0" by (auto simp: card_gt_0_iff)
    with True E F f(6) show ?thesis by (auto simp: Set_erase_def Set_size_def)
  qed
  have 3: "Set_size (Set_erase (Set_insert s k n) k) = Set_size s"
    if n: "n \<notin> addrs (root_m s)" and a: "Set_find s k = Set_end s" for n
  proof -
    have ri: "reachable (Set_insert s k n)" using assms n by (rule r_insert)
    note fi = reachable_facts [OF ri]
    from a E have nk: "k \<notin> keys (root_m s)" by simp
    with F have Fn: "Find (root_m s) k = None" by simp
    then have rt: "root_m (Set_insert s k n) = Insert (root_m s) k None n"
      and sz: "size_m (Set_insert s k n) = size_m s + 1"
      by (simp_all add: Set_insert_def)
    from Find_iff [OF fi(2) fi(1), of k] fi(3) rt
    have "Find (root_m (Set_insert s k n)) k \<noteq> None" by simp
    then show ?thesis using sz by (auto simp: Set_erase_def Set_size_def)
  qed
  from 1 2 K 3 show ?thesis by blast
qed

theorem erase_member_size_witness:
  "reachable w5 \<and>
   Set_find w5 3 \<noteq> Set_end w5 \<and>
   Set_find (Set_erase w5 3) 3 = Set_end (Set_erase w5 3) \<and>
   Set_size (Set_erase w5 3) + 1 = Set_size w5 \<and>
   16 \<notin> addrs (root_m w5) \<and> Set_find w5 7 = Set_end w5 \<and> Set_erase w5 7 = w5 \<and>
   Set_size (Set_erase (Set_insert w5 7 16) 7) = Set_size w5"
proof -
  have a: "Set_find w5 3 \<noteq> Set_end w5" by code_simp
  have b: "Set_find w5 7 = Set_end w5" by code_simp
  from erase_member_size [OF w5_reachable, of 3] erase_member_size [OF w5_reachable, of 7]
       a b w5_reachable w_fresh(6)
  show ?thesis by simp
qed

text \<open>
  Claim C2 says of every set that \<^verbatim>\<open>find(k)\<close> is \<^verbatim>\<open>end()\<close> after \<^verbatim>\<open>erase(k)\<close>. In the
  run with a copy, \<^verbatim>\<open>c.insert(1)\<close> does not find the 1 below the left child of the
  sentinel and stores a second node of 1; after \<^verbatim>\<open>c.erase(3)\<close> the new node is the
  root, \<^verbatim>\<open>c.erase(1)\<close> removes it, and \<^verbatim>\<open>c.find(1)\<close> then finds the old node of 1.
\<close>

theorem copy_erase_still_found:
  "reachable u4 \<and> c0 = Set_copy u4 (\<lambda>a. a + 20) 0 \<and> c1 = Set_erase c0 5 \<and>
   40 \<notin> addrs (root_m c1) \<and> d1 = Set_insert c1 1 40 \<and> d2 = Set_erase d1 3 \<and>
   d3 = Set_erase d2 1 \<and>
   Set_find d2 1 = Some 40 \<and> Set_size d3 + 1 = Set_size d2 \<and>
   Set_find d3 1 = Some 33 \<and> Set_end d3 = Some 30 \<and> Set_find d3 1 \<noteq> Set_end d3 \<and>
   key (deref (root_m d3) (Some 33)) = 1 \<and> keys (root_m d3) = {1, 4}"
proof -
  have e:
    "40 \<notin> addrs (root_m c1)"
    "Set_find d2 1 = Some 40"
    "Set_size d3 + 1 = Set_size d2"
    "Set_find d3 1 = Some 33"
    "Set_end d3 = Some 30"
    "Set_find d3 1 \<noteq> Set_end d3"
    "key (deref (root_m d3) (Some 33)) = 1"
    "keys (root_m d3) = {1, 4}"
    by code_simp+
  show ?thesis
    by (intro conjI) (rule u4_reachable c0_def c1_def d1_def d2_def d3_def e)+
qed

text \<open>
  \<^verbatim>\<open>lower_bound(k)\<close> on a set built by \<^verbatim>\<open>Set()\<close>, \<^verbatim>\<open>insert\<close> and \<^verbatim>\<open>erase\<close> alone
  returns \<^verbatim>\<open>end()\<close> when every key of the set is less than \<open>k\<close> (so also for the empty
  set), and otherwise the position of a key of the set that is not less than \<open>k\<close> and is
  the least such key.
\<close>

theorem lower_bound_least:
  assumes "reachable s"
  shows "\<exists>it. Set_lower_bound s k = Some it \<and>
     (if \<forall>y\<in>keys (root_m s). y < k then it = Set_end s
      else it \<noteq> Set_end s \<and> \<not> is_end (deref (root_m s) it) \<and>
           key (deref (root_m s) it) \<in> keys (root_m s) \<and>
           \<not> key (deref (root_m s) it) < k \<and>
           (\<forall>y\<in>keys (root_m s). \<not> y < k \<longrightarrow> key (deref (root_m s) it) \<le> y))"
proof (rule lower_bound_facts [OF assms, of k])
  fix it
  assume 1: "Set_lower_bound s k = Some it"
    and 2: "(\<forall>y\<in>keys (root_m s). y < k) \<longrightarrow> it = Set_end s"
    and 3: "\<not> (\<forall>y\<in>keys (root_m s). y < k) \<longrightarrow>
       it \<noteq> Set_end s \<and> \<not> is_end (deref (root_m s) it) \<and>
       key (deref (root_m s) it) \<in> keys (root_m s) \<and> \<not> key (deref (root_m s) it) < k \<and>
       (\<forall>y\<in>keys (root_m s). \<not> y < k \<longrightarrow> key (deref (root_m s) it) \<le> y)"
  show ?thesis
  proof (cases "\<forall>y\<in>keys (root_m s). y < k")
    case True
    with 1 2 show ?thesis by (intro exI [of _ it]) simp
  next
    case False
    with 3 have "it \<noteq> Set_end s \<and> \<not> is_end (deref (root_m s) it) \<and>
       key (deref (root_m s) it) \<in> keys (root_m s) \<and> \<not> key (deref (root_m s) it) < k \<and>
       (\<forall>y\<in>keys (root_m s). \<not> y < k \<longrightarrow> key (deref (root_m s) it) \<le> y)" by (rule_tac mp)
    with 1 False have "Set_lower_bound s k = Some it \<and>
     (if \<forall>y\<in>keys (root_m s). y < k then it = Set_end s
      else it \<noteq> Set_end s \<and> \<not> is_end (deref (root_m s) it) \<and>
           key (deref (root_m s) it) \<in> keys (root_m s) \<and>
           \<not> key (deref (root_m s) it) < k \<and>
           (\<forall>y\<in>keys (root_m s). \<not> y < k \<longrightarrow> key (deref (root_m s) it) \<le> y))"
      by simp
    then show ?thesis by (rule exI)
  qed
qed

theorem lower_bound_least_witness:
  "reachable w5 \<and> keys (root_m w5) = {1, 3, 4, 5, 8} \<and>
   Set_lower_bound w5 9 = Some (Set_end w5) \<and>
   Set_lower_bound w5 6 = Some (Some 13) \<and> Some 13 \<noteq> Set_end w5 \<and>
   key (deref (root_m w5) (Some 13)) = 8 \<and>
   Set_lower_bound w5 4 = Some (Some 15) \<and> key (deref (root_m w5) (Some 15)) = 4"
proof -
  have k: "keys (root_m w5) = {1, 3, 4, 5, 8}" by code_simp
  have e: "Set_lower_bound w5 6 = Some (Some 13)" "Some 13 \<noteq> Set_end w5"
    "key (deref (root_m w5) (Some 13)) = 8"
    "Set_lower_bound w5 4 = Some (Some 15)" "key (deref (root_m w5) (Some 15)) = 4"
    by code_simp+
  from lower_bound_least [OF w5_reachable, of 9] k
  have "Set_lower_bound w5 9 = Some (Set_end w5)" by auto
  with k e w5_reachable show ?thesis by simp
qed

text \<open>
  Claim C3 says of every set that \<^verbatim>\<open>lower_bound(k)\<close> is the position of the least key
  not less than \<open>k\<close>. In the run with a copy, after \<^verbatim>\<open>c.erase(5)\<close> the set holds 1, 3
  and 4, and \<^verbatim>\<open>c.lower_bound(1)\<close> returns the left child of the sentinel, the node
  of 3.
\<close>

theorem copy_lower_bound_not_least:
  "reachable u4 \<and> c0 = Set_copy u4 (\<lambda>a. a + 20) 0 \<and> c1 = Set_erase c0 5 \<and>
   keys (root_m c1) = {1, 3, 4} \<and> Set_lower_bound c1 1 = Some (Some 32) \<and>
   key (deref (root_m c1) (Some 32)) = 3"
proof -
  have e:
    "keys (root_m c1) = {1, 3, 4}"
    "Set_lower_bound c1 1 = Some (Some 32)"
    "key (deref (root_m c1) (Some 32)) = 3"
    by code_simp+
  show ?thesis
    by (intro conjI) (rule u4_reachable c0_def c1_def e)+
qed

text \<open>
  Traversal of a set built by \<^verbatim>\<open>Set()\<close>, \<^verbatim>\<open>insert\<close> and \<^verbatim>\<open>erase\<close> alone: reading the key
  and applying prefix increment \<^verbatim>\<open>size()\<close> times, starting at \<^verbatim>\<open>begin()\<close>, reads
  exactly the keys of the set, in strictly increasing order (so without duplicates), and
  arrives at \<^verbatim>\<open>end()\<close>; after fewer increments the iterator is not at \<^verbatim>\<open>end()\<close>;
  \<^verbatim>\<open>begin()\<close> is \<^verbatim>\<open>end()\<close> exactly for the empty set.
\<close>

theorem traversal_sorted:
  assumes "reachable s"
  shows "\<exists>ks. walk (root_m s) (Set_size s) (Set_begin s) = Some (ks, Set_end s) \<and>
           sorted_wrt (<) ks \<and> set ks = keys (root_m s) \<and>
           (\<forall>m<Set_size s. \<exists>ks' it. walk (root_m s) m (Set_begin s) = Some (ks', it) \<and>
                                    it \<noteq> Set_end s) \<and>
           ((Set_begin s = Set_end s) = (Set_size s = 0))"
proof -
  note f = reachable_facts [OF assms]
  let ?S = "FindEnd (root_m s)"
  from inorder_root [OF assms] obtain ns where
    ns: "inorder (root_m s) = ns @ [?S]"
    "\<forall>u\<in>set ns. \<not> is_end u" "key_nodes (root_m s) = ns"
    "sorted_wrt (<) (map key ns)" "set (map key ns) = keys (root_m s)"
    "length ns = Set_size s" "chain (root_m s) (ns @ [?S])"
    "\<forall>u\<in>set (ns @ [?S]). u \<noteq> Null \<and> deref (root_m s) (ptr u) = u"
    "distinct (map addr (ns @ [?S]))" by blast
  from f(8) have Sn: "?S \<noteq> Null" by simp
  have b: "Set_begin s = ptr (hd (ns @ [?S]))"
    using hd_inorder [OF f(8)] ns(1) by (simp add: Set_begin_def GetLeftmost_FindMin)
  have e: "Set_end s = ptr ?S" using f(7) by (simp add: Set_end_def)
  from ns(8) have de: "\<forall>u\<in>set ns. u \<noteq> Null \<and> deref (root_m s) (ptr u) = u" by simp
  have W: "walk (root_m s) m (Set_begin s) = Some (map key (take m ns), ptr ((ns @ [?S]) ! m))"
    if "m \<le> length ns" for m
    using walk_chain [OF ns(7) de that] b by simp
  have ne: "ptr ((ns @ [?S]) ! m) \<noteq> ptr ?S" if "m < length ns" for m
  proof -
    from that have 1: "(ns @ [?S]) ! m = ns ! m" by (simp add: nth_append)
    from that have 2: "ns ! m \<in> set ns" by simp
    from ns(9) have "addr ?S \<notin> addr ` set ns" by simp
    with 2 have "addr (ns ! m) \<noteq> addr ?S" by (metis imageI)
    moreover from 2 de have "ns ! m \<noteq> Null" by simp
    ultimately show ?thesis using 1 Sn by (simp add: ptr_addr)
  qed
  have 1: "walk (root_m s) (Set_size s) (Set_begin s) = Some (map key ns, Set_end s)"
    using W [of "length ns"] ns(6) e by (simp add: nth_append)
  have 2: "\<forall>m<Set_size s. \<exists>ks' it. walk (root_m s) m (Set_begin s) = Some (ks', it) \<and>
                                    it \<noteq> Set_end s"
    using W ne ns(6) e by auto
  have 3: "(Set_begin s = Set_end s) = (Set_size s = 0)"
  proof (cases ns)
    case Nil
    with b e ns(6) show ?thesis by simp
  next
    case (Cons u us)
    with ne [of 0] b e ns(6) show ?thesis by auto
  qed
  show ?thesis
    by (intro exI [of _ "map key ns"] conjI) (rule 1 ns(4) ns(5) 2 3)+
qed

theorem traversal_sorted_witness:
  "reachable w5 \<and>
   walk (root_m w5) (Set_size w5) (Set_begin w5) = Some ([1, 3, 4, 5, 8], Set_end w5) \<and>
   keys (root_m w5) = {1, 3, 4, 5, 8} \<and> Set_size w5 = 5 \<and> Set_begin w5 \<noteq> Set_end w5 \<and>
   walk (root_m w5) 4 (Set_begin w5) = Some ([1, 3, 4, 5], Some 13)"
proof -
  have e: "walk (root_m w5) (Set_size w5) (Set_begin w5) = Some ([1, 3, 4, 5, 8], Set_end w5)"
    "keys (root_m w5) = {1, 3, 4, 5, 8}" "Set_size w5 = 5"
    "walk (root_m w5) 4 (Set_begin w5) = Some ([1, 3, 4, 5], Some 13)"
    by code_simp+
  from traversal_sorted [OF w5_reachable] e(3)
  have "Set_begin w5 \<noteq> Set_end w5" by auto
  with e w5_reachable show ?thesis by simp
qed

text \<open>
  Claim C4 says of every set that the traversal from \<^verbatim>\<open>begin()\<close> reads the keys in
  strictly increasing order without duplicates. In the run with a copy, after
  \<^verbatim>\<open>c.erase(5); c.insert(1);\<close> the \<^verbatim>\<open>size()\<close> increments from \<^verbatim>\<open>begin()\<close> read
  1, 1, 3, 4.
\<close>

theorem copy_traversal_not_increasing:
  "reachable u4 \<and> c0 = Set_copy u4 (\<lambda>a. a + 20) 0 \<and> c1 = Set_erase c0 5 \<and>
   40 \<notin> addrs (root_m c1) \<and> d1 = Set_insert c1 1 40 \<and> Set_size d1 = 4 \<and>
   walk (root_m d1) (Set_size d1) (Set_begin d1) = Some ([1, 1, 3, 4], Set_end d1)"
proof -
  have e:
    "40 \<notin> addrs (root_m c1)"
    "Set_size d1 = 4"
    "walk (root_m d1) (Set_size d1) (Set_begin d1) = Some ([1, 1, 3, 4], Set_end d1)"
    by code_simp+
  show ?thesis
    by (intro conjI) (rule u4_reachable c0_def c1_def d1_def e)+
qed

text \<open>
  Claim C5. After any sequence of \<^verbatim>\<open>insert\<close> and \<^verbatim>\<open>erase\<close> on a new set, every node,
  the sentinel included, caches a height that is one more than the larger height of its
  children (an absent child counting 0), and the heights of its children differ by at
  most one.
\<close>

theorem reachable_avl:
  assumes "reachable s"
  shows "avl (root_m s)"
  using reachable_facts(1) [OF assms] .

theorem reachable_avl_witness:
  "reachable w5 \<and> avl (root_m w5) \<and> GetHeight (root_m w5) = 3"
proof -
  have "GetHeight (root_m w5) = 3" by code_simp
  with reachable_avl [OF w5_reachable] w5_reachable show ?thesis by simp
qed

text \<open>
  Claim C6 as stated says that the root is the sentinel exactly when the set is empty.
  After \<^verbatim>\<open>Set<unsigned> s; s.insert(5);\<close> the root is still the sentinel, with the
  node of 5 as its left child.
\<close>

theorem root_sentinel_iff_empty_counterexample:
  "reachable w1 \<and> \<not> (is_end (root_m w1) \<longleftrightarrow> Set_size w1 = 0)"
proof -
  have "\<not> (is_end (root_m w1) \<longleftrightarrow> Set_size w1 = 0)" by code_simp
  with w1_reachable show ?thesis by simp
qed

text \<open>
  Claim C6, amended. Every reachable tree is ordered at each node that is not the
  sentinel, has exactly one sentinel, which is reached by following right children from
  the root and comes after every key; the root is the sentinel whenever the set is empty,
  and a set whose root is the sentinel has at most one element.
\<close>

theorem reachable_structure:
  assumes "reachable s"
  shows "bst (root_m s) \<and> endtree (root_m s) \<and> count_end (root_m s) = 1 \<and>
         right_reaches_end (root_m s) \<and>
         (Set_size s = 0 \<longrightarrow> is_end (root_m s)) \<and>
         (is_end (root_m s) \<longrightarrow> Set_size s \<le> 1)"
proof -
  note f = reachable_facts [OF assms]
  from f(6) have "Set_size s = 0 \<Longrightarrow> keys (root_m s) = {}" by (simp add: Set_size_def)
  with empty_root_end [OF f(3)] have 1: "Set_size s = 0 \<longrightarrow> is_end (root_m s)" by blast
  from root_end_small [OF f(3) f(1)] f(6)
  have 2: "is_end (root_m s) \<longrightarrow> Set_size s \<le> 1" by (simp add: Set_size_def)
  from f(2) f(3) endtree_count [OF f(3)] 1 2 show ?thesis by blast
qed

theorem reachable_structure_witness:
  "reachable w5 \<and> bst (root_m w5) \<and> endtree (root_m w5) \<and> count_end (root_m w5) = 1 \<and>
   right_reaches_end (root_m w5) \<and>
   reachable w0 \<and> Set_size w0 = 0 \<and> is_end (root_m w0) \<and>
   reachable w1 \<and> is_end (root_m w1) \<and> Set_size w1 \<le> 1"
proof -
  have "Set_size w0 = 0" "is_end (root_m w1)" by code_simp+
  with reachable_structure [OF w5_reachable] reachable_structure [OF w0_reachable]
       reachable_structure [OF w1_reachable] w5_reachable w0_reachable w1_reachable
  show ?thesis by simp
qed

text \<open>
  On a set built by \<^verbatim>\<open>Set()\<close>, \<^verbatim>\<open>insert\<close> and \<^verbatim>\<open>erase\<close> alone that is not empty, one
  prefix decrement of \<^verbatim>\<open>end()\<close> gives the position of the largest key: the left child of
  the sentinel when there is one, and otherwise the node in the sentinel's \<^verbatim>\<open>parent\<close>
  field.
\<close>

theorem decr_end_is_max:
  assumes "reachable s" and "Set_size s \<noteq> 0"
  shows "\<exists>b. decr (root_m s) (Set_end s) = Some (Some b) \<and>
           deref (root_m s) (Some b) \<noteq> Null \<and> \<not> is_end (deref (root_m s) (Some b)) \<and>
           key (deref (root_m s) (Some b)) \<in> keys (root_m s) \<and>
           (\<forall>y\<in>keys (root_m s). y \<le> key (deref (root_m s) (Some b))) \<and>
           (if left (deref (root_m s) (Set_end s)) \<noteq> Null
            then Some b = ptr (left (deref (root_m s) (Set_end s)))
            else Some b = parent (deref (root_m s) (Set_end s)))"
proof -
  note f = reachable_facts [OF assms(1)]
  let ?t = "root_m s"
  let ?S = "FindEnd ?t"
  from deref_end [OF assms(1)] have d: "deref ?t (Set_end s) = ?S" .
  from FindEnd_endtree [OF f(3)] have Se: "is_end ?S" by simp
  from f(8) have Sn: "?S \<noteq> Null" by simp
  from Sn Se obtain sa sx sh sl sr sp where S: "?S = Node sa sx sh sl sr sp True"
    by (cases ?S) auto
  have dec: "decr ?t (Set_end s) = Some (if sl \<noteq> Null then ptr sl else sp)"
    using d S by (simp add: decr_def)
  show ?thesis
  proof (cases "sl = Null")
    case False
    with S have ln: "left ?S \<noteq> Null" by simp
    from sentinel_left_max [OF f(3) f(2) f(1) ln] S
    have m: "\<not> is_end sl" "key sl \<in> keys ?t" "\<forall>y\<in>keys ?t. y \<le> key sl" by auto
    from end_left_in_tree [OF ln f(8)] S have "sl \<in> set (inorder ?t)" by simp
    from inorder_node_at [OF f(4) this] have na: "node_at ?t (addr sl) = sl" .
    have "decr ?t (Set_end s) = Some (Some (addr sl)) \<and>
           deref ?t (Some (addr sl)) \<noteq> Null \<and> \<not> is_end (deref ?t (Some (addr sl))) \<and>
           key (deref ?t (Some (addr sl))) \<in> keys ?t \<and>
           (\<forall>y\<in>keys ?t. y \<le> key (deref ?t (Some (addr sl)))) \<and>
           (if left (deref ?t (Set_end s)) \<noteq> Null
            then Some (addr sl) = ptr (left (deref ?t (Set_end s)))
            else Some (addr sl) = parent (deref ?t (Set_end s)))"
      using dec False m na d S by (simp add: ptr_addr)
    then show ?thesis by (rule exI)
  next
    case True
    with S have ln: "left ?S = Null" by simp
    from assms(2) f(6) have "keys ?t \<noteq> {}" by (auto simp: Set_size_def)
    from end_parent_max [OF f(3) f(2) f(4) f(5) this ln] obtain b where
      b: "parent ?S = Some b" "b \<in> addrs ?t" "\<not> is_end (node_at ?t b)"
         "key (node_at ?t b) \<in> keys ?t" "\<forall>y\<in>keys ?t. y \<le> key (node_at ?t b)" by blast
    from b(2) have "node_at ?t b \<noteq> Null" by (simp add: node_at_Null_iff)
    with b S True dec d
    have "decr ?t (Set_end s) = Some (Some b) \<and>
           deref ?t (Some b) \<noteq> Null \<and> \<not> is_end (deref ?t (Some b)) \<and>
           key (deref ?t (Some b)) \<in> keys ?t \<and>
           (\<forall>y\<in>keys ?t. y \<le> key (deref ?t (Some b))) \<and>
           (if left (deref ?t (Set_end s)) \<noteq> Null
            then Some b = ptr (left (deref ?t (Set_end s)))
            else Some b = parent (deref ?t (Set_end s)))"
      by simp
    then show ?thesis by (rule exI)
  qed
qed

theorem decr_end_is_max_witness:
  "reachable w5 \<and> Set_size w5 \<noteq> 0 \<and> keys (root_m w5) = {1, 3, 4, 5, 8} \<and>
   left (deref (root_m w5) (Set_end w5)) \<noteq> Null \<and>
   decr (root_m w5) (Set_end w5) = Some (Some 13) \<and>
   key (deref (root_m w5) (Some 13)) = 8 \<and>
   reachable w2 \<and> Set_size w2 \<noteq> 0 \<and> keys (root_m w2) = {3, 5} \<and>
   left (deref (root_m w2) (Set_end w2)) = Null \<and>
   decr (root_m w2) (Set_end w2) = Some (Some 11) \<and>
   key (deref (root_m w2) (Some 11)) = 5"
proof -
  have e: "Set_size w5 \<noteq> 0" "keys (root_m w5) = {1, 3, 4, 5, 8}"
    "left (deref (root_m w5) (Set_end w5)) \<noteq> Null"
    "ptr (left (deref (root_m w5) (Set_end w5))) = Some 13"
    "key (deref (root_m w5) (Some 13)) = 8"
    "Set_size w2 \<noteq> 0" "keys (root_m w2) = {3, 5}"
    "left (deref (root_m w2) (Set_end w2)) = Null"
    "parent (deref (root_m w2) (Set_end w2)) = Some 11"
    "key (deref (root_m w2) (Some 11)) = 5"
    by code_simp+
  from decr_end_is_max [OF w5_reachable e(1)] e(3,4)
  have 1: "decr (root_m w5) (Set_end w5) = Some (Some 13)" by auto
  from decr_end_is_max [OF w2_reachable e(6)] e(8,9)
  have 2: "decr (root_m w2) (Set_end w2) = Some (Some 11)" by auto
  from 1 2 e w5_reachable w2_reachable show ?thesis by simp
qed

text \<open>
  Claim C7 says of every set that is not empty that decrementing \<^verbatim>\<open>end()\<close> once gives
  the position of the largest key. In the run with a copy, after \<^verbatim>\<open>c.erase(5)\<close> the set
  holds 1, 3 and 4, and the decrement moves to the left child of the sentinel, the node
  of 3.
\<close>

theorem copy_decr_end_not_max:
  "reachable u4 \<and> c0 = Set_copy u4 (\<lambda>a. a + 20) 0 \<and> c1 = Set_erase c0 5 \<and>
   Set_size c1 = 3 \<and> keys (root_m c1) = {1, 3, 4} \<and>
   decr (root_m c1) (Set_end c1) = Some (Some 32) \<and>
   key (deref (root_m c1) (Some 32)) = 3"
proof -
  have e:
    "Set_size c1 = 3"
    "keys (root_m c1) = {1, 3, 4}"
    "decr (root_m c1) (Set_end c1) = Some (Some 32)"
    "key (deref (root_m c1) (Some 32)) = 3"
    by code_simp+
  show ?thesis
    by (intro conjI) (rule u4_reachable c0_def c1_def e)+
qed

text \<open>
  What the descent of \<open>LowerBound\<close> returns on a set built by \<^verbatim>\<open>Set()\<close>, \<^verbatim>\<open>insert\<close> and
  \<^verbatim>\<open>erase\<close> alone: either the position that \<^verbatim>\<open>lower_bound\<close> returns, or the position
  of the greatest key less than \<open>k\<close>, from which one prefix increment reaches the
  position that \<^verbatim>\<open>lower_bound\<close> returns.
\<close>

theorem raw_lower_bound_or_predecessor:
  assumes "reachable s"
  shows "\<exists>it. Set_lower_bound s k = Some it \<and>
     (LowerBound (root_m s) None k = it \<or>
      (LowerBound (root_m s) None k \<noteq> Set_end s \<and>
       \<not> is_end (deref (root_m s) (LowerBound (root_m s) None k)) \<and>
       key (deref (root_m s) (LowerBound (root_m s) None k)) \<in> keys (root_m s) \<and>
       key (deref (root_m s) (LowerBound (root_m s) None k)) < k \<and>
       (\<forall>y\<in>keys (root_m s). y < k \<longrightarrow>
           y \<le> key (deref (root_m s) (LowerBound (root_m s) None k))) \<and>
       incr (root_m s) (LowerBound (root_m s) None k) = Some it))"
proof (rule lower_bound_facts [OF assms, of k])
  fix it
  assume 1: "Set_lower_bound s k = Some it"
    and 4: "LowerBound (root_m s) None k = it \<or>
     (LowerBound (root_m s) None k \<noteq> Set_end s \<and>
      \<not> is_end (deref (root_m s) (LowerBound (root_m s) None k)) \<and>
      key (deref (root_m s) (LowerBound (root_m s) None k)) \<in> keys (root_m s) \<and>
      key (deref (root_m s) (LowerBound (root_m s) None k)) < k \<and>
      (\<forall>y\<in>keys (root_m s). y < k \<longrightarrow>
          y \<le> key (deref (root_m s) (LowerBound (root_m s) None k))) \<and>
      incr (root_m s) (LowerBound (root_m s) None k) = Some it)"
  show ?thesis by (rule exI [of _ it], rule conjI, rule 1, rule 4)
qed

theorem raw_lower_bound_or_predecessor_witness:
  "reachable w5 \<and> keys (root_m w5) = {1, 3, 4, 5, 8} \<and>
   LowerBound (root_m w5) None 2 = Some 14 \<and> key (deref (root_m w5) (Some 14)) = 1 \<and>
   incr (root_m w5) (Some 14) = Some (Some 12) \<and>
   Set_lower_bound w5 2 = Some (Some 12) \<and> key (deref (root_m w5) (Some 12)) = 3 \<and>
   LowerBound (root_m w5) None 4 = Some 15 \<and> Set_lower_bound w5 4 = Some (Some 15)"
proof -
  have e: "keys (root_m w5) = {1, 3, 4, 5, 8}"
    "LowerBound (root_m w5) None 2 = Some 14" "key (deref (root_m w5) (Some 14)) = 1"
    "incr (root_m w5) (Some 14) = Some (Some 12)" "key (deref (root_m w5) (Some 12)) = 3"
    "LowerBound (root_m w5) None 4 = Some 15" "Set_lower_bound w5 4 = Some (Some 15)"
    by code_simp+
  have ne: "Set_lower_bound w5 2 \<noteq> Some (Some 14)" by code_simp
  from raw_lower_bound_or_predecessor [OF w5_reachable, of 2] e(2,4) ne
  have "Set_lower_bound w5 2 = Some (Some 12)" by auto
  with e w5_reachable show ?thesis by simp
qed

text \<open>
  Claim C8 says that the descent of \<open>LowerBound\<close> never ends on a key less than \<open>k\<close>,
  so that the sweep of \<^verbatim>\<open>lower_bound\<close> never runs an iteration, and the comment on
  \<open>LowerBound\<close> says that it finds the least key not less than the given one. The
  descent hands on the node it leaves as \<^verbatim>\<open>par\<close> on the right branch too: in the
  example run the descent for \<open>k = 2\<close> leaves the node of 1 through its null right child
  and returns that node, and the sweep runs once to reach the node of 3.
\<close>

theorem raw_lower_bound_returns_smaller:
  "reachable w5 \<and> keys (root_m w5) = {1, 3, 4, 5, 8} \<and>
   LowerBound (root_m w5) None 2 = Some 14 \<and> Some 14 \<noteq> Set_end w5 \<and>
   key (deref (root_m w5) (Some 14)) = 1 \<and>
   Set_lower_bound w5 2 = Some (Some 12) \<and> key (deref (root_m w5) (Some 12)) = 3"
proof -
  have "keys (root_m w5) = {1, 3, 4, 5, 8} \<and>
   LowerBound (root_m w5) None 2 = Some 14 \<and> Some 14 \<noteq> Set_end w5 \<and>
   key (deref (root_m w5) (Some 14)) = 1 \<and>
   Set_lower_bound w5 2 = Some (Some 12) \<and> key (deref (root_m w5) (Some 12)) = 3"
    by code_simp
  with w5_reachable show ?thesis by simp
qed

text \<open>
  Claim C9. In the example run the iterator at the largest key 8 is at address 13 and
  the sentinel's key holds 0. Postfix increment of \<^verbatim>\<open>SetTemplate.h\<close> walks from there
  over the sentinel to the root, the node of 5 at address 11; the second file stops at
  the sentinel, as prefix increment does in both.
\<close>

theorem postfix_increment_differs:
  "reachable w5 \<and> key (deref (root_m w5) (Some 13)) = 8 \<and>
   incr_post (root_m w5) (Some 13) = Some (Some 11) \<and>
   incr_post2 (root_m w5) (Some 13) = Some (Set_end w5) \<and>
   incr (root_m w5) (Some 13) = Some (Set_end w5)"
proof -
  have "key (deref (root_m w5) (Some 13)) = 8 \<and>
   incr_post (root_m w5) (Some 13) = Some (Some 11) \<and>
   incr_post2 (root_m w5) (Some 13) = Some (Set_end w5) \<and>
   incr (root_m w5) (Some 13) = Some (Set_end w5)" by code_simp
  with w5_reachable show ?thesis by simp
qed

text \<open>
  Claim C10. In every reachable state the node that \<^verbatim>\<open>end()\<close> points to is the
  sentinel, and when it has a left child, that child has no children, is not a sentinel
  and holds the largest key of the set.
\<close>

theorem sentinel_left_is_max_leaf:
  assumes "reachable s"
  shows "is_end (deref (root_m s) (Set_end s)) \<and>
         (left (deref (root_m s) (Set_end s)) \<noteq> Null \<longrightarrow>
            left (left (deref (root_m s) (Set_end s))) = Null \<and>
            right (left (deref (root_m s) (Set_end s))) = Null \<and>
            \<not> is_end (left (deref (root_m s) (Set_end s))) \<and>
            key (left (deref (root_m s) (Set_end s))) \<in> keys (root_m s) \<and>
            (\<forall>y\<in>keys (root_m s). y \<le> key (left (deref (root_m s) (Set_end s)))))"
proof -
  note f = reachable_facts [OF assms]
  from FindEnd_endtree [OF f(3)] sentinel_left_max [OF f(3) f(2) f(1)]
  show ?thesis unfolding deref_end [OF assms] by blast
qed

theorem sentinel_left_is_max_leaf_witness:
  "reachable w5 \<and> left (deref (root_m w5) (Set_end w5)) \<noteq> Null \<and>
   left (left (deref (root_m w5) (Set_end w5))) = Null \<and>
   right (left (deref (root_m w5) (Set_end w5))) = Null \<and>
   key (left (deref (root_m w5) (Set_end w5))) = 8 \<and>
   keys (root_m w5) = {1, 3, 4, 5, 8}"
proof -
  have "left (deref (root_m w5) (Set_end w5)) \<noteq> Null"
    "key (left (deref (root_m w5) (Set_end w5))) = 8"
    "keys (root_m w5) = {1, 3, 4, 5, 8}" by code_simp+
  with sentinel_left_is_max_leaf [OF w5_reachable] w5_reachable show ?thesis by simp
qed

end
